theory Spec2Isabelle
  imports Main "HOL-Library.AList"
begin

section \<open>Python strings\<close>

text \<open>
  A Python \<^verbatim>\<open>str\<close> is a sequence of Unicode code points. A code point is modelled as a
  natural number and a string as the list of its code points, so that the line
  boundaries and the white space that \<^verbatim>\<open>str.splitlines\<close> and \<^verbatim>\<open>str.strip\<close> recognise
  beyond ASCII (U+0085, U+2028, ...) are part of the model. \<open>py\<close> turns an ASCII literal
  into such a string.
\<close>

type_synonym pystr = "nat list"

definition py :: "string \<Rightarrow> pystr" where
  "py s = map of_char s"

definition nl :: pystr where
  "nl = [10]"

text \<open>
  \<^verbatim>\<open>str.splitlines()\<close> splits at LF, VT, FF, CR, FS, GS, RS, NEL, LS and PS; CR LF is one
  boundary; the boundaries are dropped, and a final boundary does not open a further
  (empty) line.
\<close>

definition is_linebreak :: "nat \<Rightarrow> bool" where
  "is_linebreak c \<longleftrightarrow> c \<in> {10, 11, 12, 13, 28, 29, 30, 133, 8232, 8233}"

text \<open>
  \<open>split_from cr cur s\<close>: \<open>cur\<close> is the line read so far, \<open>cr\<close> says that the previous
  code point was a CR that closed a line (a LF that follows belongs to that boundary).
\<close>

fun split_from :: "bool \<Rightarrow> pystr \<Rightarrow> pystr \<Rightarrow> pystr list" where
  "split_from cr cur [] = (if cur = [] then [] else [cur])"
| "split_from cr cur (c # cs) =
     (if cr \<and> c = 10 then split_from False cur cs
      else if is_linebreak c then cur # split_from (c = 13) [] cs
      else split_from False (cur @ [c]) cs)"

definition splitlines :: "pystr \<Rightarrow> pystr list" where
  "splitlines s = split_from False [] s"

text \<open>\<^verbatim>\<open>sep.join(xs)\<close>.\<close>

fun join :: "pystr \<Rightarrow> pystr list \<Rightarrow> pystr" where
  "join sep [] = []"
| "join sep [x] = x"
| "join sep (x # y # ys) = x @ sep @ join sep (y # ys)"

section \<open>Tree builder: line-range edits\<close>

text \<open>
  One entry of the \<^verbatim>\<open>diffs\<close> list of a \<^verbatim>\<open>line_diff\<close> instruction. Every field is read
  with \<^verbatim>\<open>dict.get\<close> and a default, so every field is optional.
\<close>

record line_diff =
  start_line :: "int option"
  end_line :: "int option"
  new_content :: "pystr option"

text \<open>The sort key \<^verbatim>\<open>x.get('start_line', 0)\<close>.\<close>

definition sort_start :: "line_diff \<Rightarrow> int" where
  "sort_start d = (case start_line d of None \<Rightarrow> 0 | Some s \<Rightarrow> s)"

text \<open>
  \<^verbatim>\<open>start_line = diff.get("start_line", 1) - 1\<close>, the 0-based index of the first line, and
  \<^verbatim>\<open>end_line = diff.get("end_line", start_line + 1)\<close>, the 0-based exclusive end, which is
  the 1-based number of the last line.
\<close>

definition start0 :: "line_diff \<Rightarrow> int" where
  "start0 d = (case start_line d of None \<Rightarrow> 1 | Some s \<Rightarrow> s) - 1"

definition end0 :: "line_diff \<Rightarrow> int" where
  "end0 d = (case end_line d of None \<Rightarrow> start0 d + 1 | Some e \<Rightarrow> e)"

definition new_content_lines :: "line_diff \<Rightarrow> pystr list" where
  "new_content_lines d = splitlines (case new_content d of None \<Rightarrow> [] | Some c \<Rightarrow> c)"

text \<open>The guard of the loop body: the edit is skipped (with a warning) when it holds.\<close>

definition range_invalid :: "pystr list \<Rightarrow> line_diff \<Rightarrow> bool" where
  "range_invalid lines d \<longleftrightarrow>
     start0 d < 0 \<or> end0 d > int (length lines) \<or> start0 d \<ge> end0 d"

text \<open>
  The loop body: \<^verbatim>\<open>lines[start_line:end_line] = new_content_lines\<close> unless the range is
  invalid. The indices pass the guard, so the slice is the plain one.
\<close>

definition apply_diff :: "pystr list \<Rightarrow> line_diff \<Rightarrow> pystr list" where
  "apply_diff lines d =
     (if range_invalid lines d then lines
      else take (nat (start0 d)) lines @ new_content_lines d @ drop (nat (end0 d)) lines)"

text \<open>
  \<^verbatim>\<open>sorted(diffs, key=..., reverse=True)\<close>: descending by key and stable (entries with equal
  keys keep their input order), which is a stable ascending sort on the negated key.
\<close>

definition sorted_reverse :: "line_diff list \<Rightarrow> line_diff list" where
  "sorted_reverse diffs = sort_key (\<lambda>d. - sort_start d) diffs"

text \<open>
  \<^verbatim>\<open>_apply_line_diffs\<close>: the argument is the content of the file, \<open>None\<close> when the file
  does not exist; the result is the content written.
\<close>

definition apply_line_diffs :: "pystr option \<Rightarrow> line_diff list \<Rightarrow> pystr" where
  "apply_line_diffs file diffs =
     (case file of
        None \<Rightarrow> join nl (map (\<lambda>d. case new_content d of None \<Rightarrow> [] | Some c \<Rightarrow> c) diffs)
      | Some content \<Rightarrow> join nl (foldl apply_diff (splitlines content) (sorted_reverse diffs)))"

text \<open>
  The range of an edit as the instruction gives it: 1-based, both ends included.
  \<^verbatim>\<open>start_line\<close> defaults to 1 and \<^verbatim>\<open>end_line\<close> to the start line.
\<close>

definition first_line :: "line_diff \<Rightarrow> int" where
  "first_line d = start0 d + 1"

definition last_line :: "line_diff \<Rightarrow> int" where
  "last_line d = end0 d"

text \<open>A range is valid for a file of \<open>n\<close> lines when it is non-empty and lies in the file.\<close>

definition valid_range :: "nat \<Rightarrow> line_diff \<Rightarrow> bool" where
  "valid_range n d \<longleftrightarrow>
     1 \<le> first_line d \<and> first_line d \<le> last_line d \<and> last_line d \<le> int n"

definition disjoint_ranges :: "line_diff \<Rightarrow> line_diff \<Rightarrow> bool" where
  "disjoint_ranges a b \<longleftrightarrow> last_line a < first_line b \<or> last_line b < first_line a"

text \<open>Every entry is disjoint from every later one (the relation is symmetric).\<close>

definition pairwise_disjoint :: "line_diff list \<Rightarrow> bool" where
  "pairwise_disjoint diffs = sorted_wrt disjoint_ranges diffs"

definition ascending_starts :: "line_diff list \<Rightarrow> bool" where
  "ascending_starts diffs = sorted (map first_line diffs)"

text \<open>
  The reference the builder is compared with: the edits applied to the file one at a
  time, in the order of the list given. Each edit is one call of \<^verbatim>\<open>_apply_line_diffs\<close>
  with that edit alone, which reads the file, edits its lines and writes it back.
\<close>

definition one_call_each :: "pystr \<Rightarrow> line_diff list \<Rightarrow> pystr" where
  "one_call_each content diffs = foldl (\<lambda>c d. apply_line_diffs (Some c) [d]) content diffs"

text \<open>
  The last line stays in place: the file does not end with an empty line, and an edit
  that ends at the last line of the file has a new content with at least one line whose
  last line is not empty.
\<close>

definition keeps_last_line :: "pystr list \<Rightarrow> line_diff list \<Rightarrow> bool" where
  "keeps_last_line lines diffs \<longleftrightarrow>
     (lines \<noteq> [] \<longrightarrow> last lines \<noteq> [])
   \<and> (\<forall>d\<in>set diffs. last_line d = int (length lines) \<longrightarrow>
         new_content_lines d \<noteq> [] \<and> last (new_content_lines d) \<noteq> [])"

text \<open>
  The ranges that the guard rejects, in the instruction's own 1-based terms: the first
  line is below 1 or beyond the file, the last line is beyond the file, or the last
  line is before the first one.
\<close>

definition skipped_range :: "nat \<Rightarrow> line_diff \<Rightarrow> bool" where
  "skipped_range n d \<longleftrightarrow>
     first_line d < 1 \<or> int n < first_line d \<or> int n < last_line d
     \<or> last_line d < first_line d"

text \<open>
  Lines as \<^verbatim>\<open>"\n".join\<close> and \<^verbatim>\<open>splitlines\<close> keep them: no line holds a line boundary and
  the last line is not empty.
\<close>

definition plain_lines :: "pystr list \<Rightarrow> bool" where
  "plain_lines ls \<longleftrightarrow>
     (\<forall>l\<in>set ls. \<forall>c\<in>set l. \<not> is_linebreak c) \<and> (ls \<noteq> [] \<longrightarrow> last ls \<noteq> [])"

definition ten_lines :: "pystr list" where
  "ten_lines = [py ''l1'', py ''l2'', py ''l3'', py ''l4'', py ''l5'',
                py ''l6'', py ''l7'', py ''l8'', py ''l9'', py ''l10'']"

section \<open>Verification pipeline: the dependency manifest\<close>

text \<open>
  \<^verbatim>\<open>str.strip()\<close> removes the white space of Python (\<^verbatim>\<open>str.isspace\<close>) at both ends.
\<close>

definition is_space :: "nat \<Rightarrow> bool" where
  "is_space c \<longleftrightarrow> (9 \<le> c \<and> c \<le> 13) \<or> (28 \<le> c \<and> c \<le> 32) \<or> c = 133 \<or> c = 160
     \<or> c = 5760 \<or> (8192 \<le> c \<and> c \<le> 8202) \<or> c = 8232 \<or> c = 8233 \<or> c = 8239
     \<or> c = 8287 \<or> c = 12288"

definition strip :: "pystr \<Rightarrow> pystr" where
  "strip s = rev (dropWhile is_space (rev (dropWhile is_space s)))"

text \<open>
  \<^verbatim>\<open>str.lower()\<close> on the ASCII letters. Code points beyond ASCII are left as they are:
  the lower-case mapping of Unicode is not modelled, and the manifests evaluated below
  are ASCII.
\<close>

definition lower :: "pystr \<Rightarrow> pystr" where
  "lower s = map (\<lambda>c. if 65 \<le> c \<and> c \<le> 90 then c + 32 else c) s"

definition startswith :: "pystr \<Rightarrow> pystr \<Rightarrow> bool" where
  "startswith s p \<longleftrightarrow> take (length p) s = p"

definition STANDARD_LIBS :: "pystr list" where
  "STANDARD_LIBS = map py
     [''sqlite3'', ''os'', ''sys'', ''json'', ''re'', ''datetime'', ''pathlib'', ''logging'',
      ''threading'', ''multiprocessing'', ''argparse'', ''collections'', ''subprocess'',
      ''shutil'', ''glob'', ''math'', ''random'', ''time'', ''uuid'', ''configparser'',
      ''hashlib'', ''tempfile'', ''unittest'']"

text \<open>
  The filter of the list comprehension:
  \<^verbatim>\<open>line.strip() and not any(line.strip().lower().startswith(lib) for lib in STANDARD_LIBS)\<close>.
\<close>

definition keep_line :: "pystr \<Rightarrow> bool" where
  "keep_line line \<longleftrightarrow>
     strip line \<noteq> [] \<and> \<not> list_ex (\<lambda>lib. startswith (lower (strip line)) lib) STANDARD_LIBS"

text \<open>
  \<^verbatim>\<open>_sanitize_dependency_file\<close> on a file that exists: the argument is its content, the
  result its content afterwards. The file is written only when a line was removed.
\<close>

definition sanitize_dependency_file :: "pystr \<Rightarrow> pystr" where
  "sanitize_dependency_file content =
     (let lines = splitlines content;
          sanitized_lines = filter keep_line lines
      in if length sanitized_lines < length lines then join nl sanitized_lines @ nl
         else content)"

section \<open>Tree builder: file trees\<close>

text \<open>
  The content of a directory: a map from the path of an entry, relative to the
  directory and given by its components, to the entry. The directory itself is not an
  entry of its own content; a directory that may be absent is a \<open>tree option\<close>. Symbolic
  links are not modelled, and the only failures modelled are those of the files and
  directories themselves (a file where a directory is needed, a directory where a file
  is written). A name that the file system rejects (too long, with a NUL) and a content
  that cannot be encoded make the source fail where the model writes; they are not
  modelled.
\<close>

datatype node = File pystr | Dir

type_synonym parts = "pystr list"

type_synonym tree = "parts \<Rightarrow> node option"

text \<open>
  \<^verbatim>\<open>Path(s)\<close> on a POSIX system: the components between slashes, without the empty ones
  and the \<^verbatim>\<open>.\<close> ones; \<^verbatim>\<open>..\<close> is kept. \<^verbatim>\<open>Path(s).name\<close> is the last component, or the empty
  string when there is none.
\<close>

fun split_slash :: "pystr \<Rightarrow> pystr \<Rightarrow> pystr list" where
  "split_slash cur [] = [cur]"
| "split_slash cur (c # cs) =
     (if c = 47 then cur # split_slash [] cs else split_slash (cur @ [c]) cs)"

definition path_parts :: "pystr \<Rightarrow> parts" where
  "path_parts s = filter (\<lambda>c. c \<noteq> [] \<and> c \<noteq> py ''.'') (split_slash [] s)"

definition is_absolute :: "pystr \<Rightarrow> bool" where
  "is_absolute s = (case s of [] \<Rightarrow> False | c # _ \<Rightarrow> c = 47)"

definition path_name :: "pystr \<Rightarrow> pystr" where
  "path_name s = (case rev (path_parts s) of [] \<Rightarrow> [] | c # _ \<Rightarrow> c)"

definition dotdot :: pystr where
  "dotdot = py ''..''"

text \<open>
  The outcome of an operation on the target directory: it is done, it raised (the tree
  is as the operation left it), or its path leaves the target directory (an absolute
  path, or \<^verbatim>\<open>..\<close> above the target), which is outside this model.
\<close>

datatype 'a step = Ok 'a | Failed tree | Outside

text \<open>
  \<^verbatim>\<open>mkdir(parents=True, exist_ok=True)\<close> on the path with the components given, from the
  directory \<open>cur\<close>: every directory on the way is created when it is missing, and a file
  on the way raises. The result holds the directory reached.
\<close>

fun mkdirs :: "tree \<Rightarrow> parts \<Rightarrow> parts \<Rightarrow> (tree \<times> parts) step" where
  "mkdirs t cur [] = Ok (t, cur)"
| "mkdirs t cur (c # cs) =
     (if c = dotdot then (if cur = [] then Outside else mkdirs t (butlast cur) cs)
      else case t (cur @ [c]) of
             None \<Rightarrow> mkdirs (t(cur @ [c] \<mapsto> Dir)) (cur @ [c]) cs
           | Some Dir \<Rightarrow> mkdirs t (cur @ [c]) cs
           | Some (File x) \<Rightarrow> Failed t)"

text \<open>
  \<^verbatim>\<open>full_path.parent.mkdir(parents=True, exist_ok=True)\<close> and then
  \<^verbatim>\<open>full_path.write_text(content)\<close>, for the components of the path below the target.
  Writing to a directory (the target itself, a path that ends in \<^verbatim>\<open>..\<close>, an existing
  directory) raises.
\<close>

definition write_file :: "tree \<Rightarrow> parts \<Rightarrow> pystr \<Rightarrow> tree step" where
  "write_file t ps content =
     (if ps = [] then Failed t
      else case mkdirs t [] (butlast ps) of
             Failed t' \<Rightarrow> Failed t'
           | Outside \<Rightarrow> Outside
           | Ok (t', cur) \<Rightarrow>
               if last ps = dotdot then Failed t'
               else (case t' (cur @ [last ps]) of
                       Some Dir \<Rightarrow> Failed t'
                     | _ \<Rightarrow> Ok (t'(cur @ [last ps] \<mapsto> File content))))"

text \<open>
  Where a path leads (\<^verbatim>\<open>exists\<close>, \<^verbatim>\<open>is_file\<close>, \<^verbatim>\<open>read_text\<close>): to nothing, to an entry, or
  out of the target directory.
\<close>

datatype found = Missing | Found parts node | Beyond

fun locate :: "tree \<Rightarrow> parts \<Rightarrow> parts \<Rightarrow> found" where
  "locate t cur [] = Found cur Dir"
| "locate t cur (c # cs) =
     (if c = dotdot then (if cur = [] then Beyond else locate t (butlast cur) cs)
      else case t (cur @ [c]) of
             None \<Rightarrow> Missing
           | Some Dir \<Rightarrow> locate t (cur @ [c]) cs
           | Some (File x) \<Rightarrow> if cs = [] then Found (cur @ [c]) (File x) else Missing)"

section \<open>Tree builder: the two build modes\<close>

text \<open>
  The value of \<^verbatim>\<open>json.loads\<close>. The parser belongs to the Python library; the builder is
  modelled for every parser \<open>loads\<close>, where \<open>None\<close> stands for \<^verbatim>\<open>JSONDecodeError\<close>. A parser
  that raises another exception on a text (the source catches \<^verbatim>\<open>JSONDecodeError\<close> and
  \<^verbatim>\<open>TypeError\<close> only, and the build fails on any other) is not modelled.
\<close>

datatype json = JNull | JBool bool | JNum int | JStr pystr | JArr "json list"
  | JObj "(pystr \<times> json) list"

definition sanitize_requirements_content ::
    "(pystr \<Rightarrow> json option) \<Rightarrow> pystr \<Rightarrow> pystr \<Rightarrow> pystr" where
  "sanitize_requirements_content loads file_path_str content =
     (if path_name file_path_str \<noteq> py ''requirements.txt'' then content
      else case loads content of
             Some (JObj data) \<Rightarrow>
               (case map_of data (py ''content'') of
                  Some (JStr new_content') \<Rightarrow> new_content'
                | _ \<Rightarrow> content)
           | _ \<Rightarrow> content)"

text \<open>
  An entry of the \<^verbatim>\<open>files\<close> list; \<^verbatim>\<open>path\<close> is read with \<^verbatim>\<open>get("path")\<close> and \<^verbatim>\<open>content\<close> with
  \<^verbatim>\<open>get("content", "")\<close>.
\<close>

record file_info =
  fi_path :: "pystr option"
  fi_content :: "pystr option"

datatype build_result = Built bool tree | Escaped

text \<open>The loop over \<^verbatim>\<open>files\<close>; an exception ends the build with \<^verbatim>\<open>False\<close>.\<close>

fun write_files :: "(pystr \<Rightarrow> json option) \<Rightarrow> file_info list \<Rightarrow> tree \<Rightarrow> build_result" where
  "write_files loads [] t = Built True t"
| "write_files loads (file_info # files) t =
     (case fi_path file_info of
        None \<Rightarrow> write_files loads files t
      | Some file_path_str \<Rightarrow>
          if file_path_str = [] then write_files loads files t
          else if is_absolute file_path_str then Escaped
          else (case write_file t (path_parts file_path_str)
                       (sanitize_requirements_content loads file_path_str
                          (case fi_content file_info of None \<Rightarrow> [] | Some c \<Rightarrow> c)) of
                  Ok t' \<Rightarrow> write_files loads files t'
                | Failed t' \<Rightarrow> Built False t'
                | Outside \<Rightarrow> Escaped))"

definition rmtree :: "tree option \<Rightarrow> tree option" where
  "rmtree d = None"

text \<open>
  \<^verbatim>\<open>build_project_structure\<close>: the target directory is removed when it exists and made
  anew (\<^verbatim>\<open>mkdir(parents=True)\<close> raises on a directory that exists, which the removal
  excludes), then the files are written.
\<close>

definition build_project_structure ::
    "(pystr \<Rightarrow> json option) \<Rightarrow> file_info list \<Rightarrow> tree option \<Rightarrow> build_result" where
  "build_project_structure loads files base_path =
     (case (if base_path \<noteq> None then rmtree base_path else base_path) of
        Some t \<Rightarrow> Built False t
      | None \<Rightarrow> if files = [] then Built True Map.empty
                else write_files loads files Map.empty)"

text \<open>
  A modification instruction: \<^verbatim>\<open>type\<close>, \<^verbatim>\<open>path\<close>, \<^verbatim>\<open>content\<close> (default \<^verbatim>\<open>""\<close>) and \<^verbatim>\<open>diffs\<close>
  (default \<^verbatim>\<open>[]\<close>).
\<close>

record instruction =
  ins_type :: "pystr option"
  ins_path :: "pystr option"
  ins_content :: "pystr option"
  ins_diffs :: "line_diff list"

text \<open>
  \<^verbatim>\<open>_apply_line_diffs\<close> on the tree: a missing file is created from the new contents, a
  file is read, edited and written back, and reading a directory raises.
\<close>

definition apply_line_diffs_at :: "tree \<Rightarrow> parts \<Rightarrow> line_diff list \<Rightarrow> tree step" where
  "apply_line_diffs_at t ps diffs =
     (case locate t [] ps of
        Beyond \<Rightarrow> Outside
      | Missing \<Rightarrow> write_file t ps (apply_line_diffs None diffs)
      | Found loc Dir \<Rightarrow> Failed t
      | Found loc (File content) \<Rightarrow>
          Ok (t(loc \<mapsto> File (apply_line_diffs (Some content) diffs))))"

definition delete_file_at :: "tree \<Rightarrow> parts \<Rightarrow> tree step" where
  "delete_file_at t ps =
     (case locate t [] ps of
        Beyond \<Rightarrow> Outside
      | Found loc (File content) \<Rightarrow> Ok (t(loc := None))
      | _ \<Rightarrow> Ok t)"

definition apply_instruction ::
    "(pystr \<Rightarrow> json option) \<Rightarrow> tree \<Rightarrow> instruction \<Rightarrow> tree step" where
  "apply_instruction loads t instruction =
     (case ins_path instruction of
        None \<Rightarrow> Ok t
      | Some rel_path_str \<Rightarrow>
          if rel_path_str = [] then Ok t
          else if is_absolute rel_path_str then Outside
          else if ins_type instruction = Some (py ''replace_file'')
                \<or> ins_type instruction = Some (py ''new_file'')
          then write_file t (path_parts rel_path_str)
                 (sanitize_requirements_content loads rel_path_str
                    (case ins_content instruction of None \<Rightarrow> [] | Some c \<Rightarrow> c))
          else if ins_type instruction = Some (py ''line_diff'')
          then apply_line_diffs_at t (path_parts rel_path_str) (ins_diffs instruction)
          else if ins_type instruction = Some (py ''delete_file'')
          then delete_file_at t (path_parts rel_path_str)
          else Ok t)"



text \<open>A manifest whose content is a JSON object that wraps the real content.\<close>

definition wrapped_manifest :: pystr where
  \<open>wrapped_manifest = py ''{"content": "flask"}''\<close>

text \<open>
  A parser for the examples: it knows the one JSON text above and rejects every other
  text.
\<close>

definition loads_example :: "pystr \<Rightarrow> json option" where
  "loads_example s =
     (if s = wrapped_manifest then Some (JObj [(py ''content'', JStr (py ''flask''))])
      else None)"

section \<open>Dependency scheduler\<close>

text \<open>
  A step of the task list: its number, the numbers of the steps it depends on
  (\<^verbatim>\<open>get('dependencies', [])\<close>, a list that may repeat a number) and its kind
  (\<^verbatim>\<open>get("step_type", "feature_development")\<close>).
\<close>

record task =
  step_number :: int
  dependencies :: "int list"
  step_type :: "pystr option"

text \<open>
  A Python dictionary keeps its keys in the order of their first insertion; it is an
  association list with distinct keys, read with \<open>map_of\<close> and written with
  \<open>AList.update\<close>, which keeps the place of a key that is present and appends a new one.
\<close>

type_synonym 'a dict = "(int \<times> 'a) list"

text \<open>\<^verbatim>\<open>steps = {step['step_number']: step for step in tasks_data['steps']}\<close>.\<close>

definition steps_dict :: "task list \<Rightarrow> task dict" where
  "steps_dict tasks = foldl (\<lambda>d step. AList.update (step_number step) step d) [] tasks"

text \<open>
  The inner loop over the dependencies of one step: the step is appended to the list of
  dependents of each; a dependency that is not a step ends the phase (\<open>Inl\<close> names the
  step and the missing dependency).
\<close>

fun add_dependents :: "int \<Rightarrow> int list \<Rightarrow> int list dict \<Rightarrow> (int \<times> int) + int list dict" where
  "add_dependents step_num [] adj_list = Inr adj_list"
| "add_dependents step_num (dep_num # deps) adj_list =
     (case map_of adj_list dep_num of
        Some ds \<Rightarrow> add_dependents step_num deps (AList.update dep_num (ds @ [step_num]) adj_list)
      | None \<Rightarrow> Inl (step_num, dep_num))"

fun build_graph_loop ::
    "task dict \<Rightarrow> int list dict \<Rightarrow> int dict \<Rightarrow> (int \<times> int) + (int list dict \<times> int dict)" where
  "build_graph_loop [] adj_list in_deg = Inr (adj_list, in_deg)"
| "build_graph_loop ((step_num, step_data) # rest) adj_list in_deg =
     (case add_dependents step_num (dependencies step_data) adj_list of
        Inl e \<Rightarrow> Inl e
      | Inr adj_list' \<Rightarrow>
          build_graph_loop rest adj_list'
            (AList.update step_num (int (length (dependencies step_data))) in_deg))"

definition build_graph :: "task dict \<Rightarrow> (int \<times> int) + (int list dict \<times> int dict)" where
  "build_graph steps =
     build_graph_loop steps (map (\<lambda>(k, v). (k, [])) steps) (map (\<lambda>(k, v). (k, 0)) steps)"

text \<open>
  The loop over the dependents of a step that succeeded: the in-degree of each is
  decremented, and a dependent whose in-degree is then 0 is appended to the queue.
  \<open>None\<close> is the \<^verbatim>\<open>KeyError\<close> of \<^verbatim>\<open>in_degree[dependent_step_num]\<close>.
\<close>

fun unlock :: "int list \<Rightarrow> int dict \<Rightarrow> int list \<Rightarrow> (int dict \<times> int list) option" where
  "unlock [] in_deg q = Some (in_deg, q)"
| "unlock (d # ds) in_deg q =
     (case map_of in_deg d of
        None \<Rightarrow> None
      | Some v \<Rightarrow> unlock ds (AList.update d (v - 1) in_deg) (if v - 1 = 0 then q @ [d] else q))"

text \<open>
  The state of the loop. \<open>calls\<close> is the log of the calls of \<^verbatim>\<open>execute_step\<close>: the step,
  the completed set passed to it, and the state of the world it started in. \<open>world\<close>
  is everything \<^verbatim>\<open>execute_step\<close> reads and changes (workspace, generator, user).
  \<^verbatim>\<open>last_main_executable\<close> plays no part in the scheduling and is left out.
\<close>

record 'w sched =
  queue :: "int list"
  in_degree :: "int dict"
  completed_steps :: "int set"
  calls :: "(int \<times> int set \<times> 'w) list"
  world :: 'w

text \<open>
  How the phase ends: nothing to do (\<^verbatim>\<open>True\<close>), no environment (\<^verbatim>\<open>False\<close>), a dependency
  that is not a step (\<^verbatim>\<open>False\<close>), a step that ended \<^verbatim>\<open>'aborted'\<close> or \<^verbatim>\<open>'skipped'\<close> (the value
  of \<^verbatim>\<open>len(completed_steps) > 0\<close>), all steps completed (\<^verbatim>\<open>True\<close>), the queue empty with
  steps left (\<^verbatim>\<open>False\<close>, with the numbers logged: completed and total), or a \<^verbatim>\<open>KeyError\<close>.
\<close>

datatype outcome = NoSteps | NoEnvironment | Dangling int int | Halted bool | AllDone
  | Incomplete nat nat | KeyError

fun returns :: "outcome \<Rightarrow> bool option" where
  "returns NoSteps = Some True"
| "returns NoEnvironment = Some False"
| "returns (Dangling s d) = Some False"
| "returns (Halted b) = Some b"
| "returns AllDone = Some True"
| "returns (Incomplete c n) = Some False"
| "returns KeyError = None"

definition positive_entries :: "int dict \<Rightarrow> nat" where
  "positive_entries in_deg = length (filter (\<lambda>(k, v). 0 < v) in_deg)"

type_synonym 'w execute_step = "int \<Rightarrow> task \<Rightarrow> int set \<Rightarrow> 'w \<Rightarrow> pystr \<times> 'w"

text \<open>
  The \<^verbatim>\<open>while queue:\<close> loop ends: a pass takes one step from the queue and appends a
  step only when its in-degree falls from 1 to 0.
\<close>

lemma update_positive:
  "map_of in_deg d = Some v \<Longrightarrow>
   positive_entries (AList.update d (v - 1) in_deg) + (if v - 1 = 0 then 1 else 0)
   = positive_entries in_deg"
  by (induction in_deg) (auto simp: positive_entries_def)

lemma unlock_measure:
  "unlock ds in_deg q = Some (in_deg', q') \<Longrightarrow>
   length q' + positive_entries in_deg' = length q + positive_entries in_deg"
proof (induction ds arbitrary: in_deg q)
  case Nil
  then show ?case by simp
next
  case (Cons d ds)
  then obtain v where v: "map_of in_deg d = Some v"
    by (auto split: option.splits)
  with Cons.prems
  have "unlock ds (AList.update d (v - 1) in_deg) (if v - 1 = 0 then q @ [d] else q)
        = Some (in_deg', q')"
    by simp
  from Cons.IH[OF this] update_positive[OF v] show ?case
    by (auto split: if_splits)
qed

text \<open>
  The loop of \<^verbatim>\<open>run_steps_execution_phase\<close>. \<open>exec\<close> is \<^verbatim>\<open>step_handler.execute_step\<close>; the
  result string is compared with \<^verbatim>\<open>'success'\<close>, \<^verbatim>\<open>'aborted'\<close> and \<^verbatim>\<open>'skipped'\<close>, and any
  other result leaves the step uncompleted and goes on with the queue.
\<close>

function run_loop ::
    "'w execute_step \<Rightarrow> task dict \<Rightarrow> int list dict \<Rightarrow> 'w sched \<Rightarrow> outcome \<times> 'w sched" where
  "run_loop exec steps adj_list st =
     (case queue st of
        [] \<Rightarrow>
          (if card (completed_steps st) = length steps then (AllDone, st)
           else (Incomplete (card (completed_steps st)) (length steps), st))
      | step_num # rest \<Rightarrow>
          (case map_of steps step_num of
             None \<Rightarrow> (KeyError, st\<lparr>queue := rest\<rparr>)
           | Some step_task \<Rightarrow>
               (case exec step_num step_task (completed_steps st) (world st) of
                  (result, w') \<Rightarrow>
                    if result = py ''success'' then
                      (case map_of adj_list step_num of
                         None \<Rightarrow> (KeyError, st\<lparr>queue := rest\<rparr>)
                       | Some dependents \<Rightarrow>
                           (case unlock dependents (in_degree st) rest of
                              None \<Rightarrow> (KeyError, st\<lparr>queue := rest\<rparr>)
                            | Some (in_deg', q') \<Rightarrow>
                                run_loop exec steps adj_list
                                  (st\<lparr>queue := q', in_degree := in_deg',
                                      completed_steps := insert step_num (completed_steps st),
                                      calls := calls st
                                        @ [(step_num, completed_steps st, world st)],
                                      world := w'\<rparr>)))
                    else if result = py ''aborted'' \<or> result = py ''skipped'' then
                      (Halted (0 < card (completed_steps st)),
                       st\<lparr>queue := rest,
                          calls := calls st @ [(step_num, completed_steps st, world st)],
                          world := w'\<rparr>)
                    else
                      run_loop exec steps adj_list
                        (st\<lparr>queue := rest,
                            calls := calls st @ [(step_num, completed_steps st, world st)],
                            world := w'\<rparr>))))"
  by pat_completeness auto
termination
  apply (relation "measure (\<lambda>(exec, steps, adj_list, st).
           length (queue st) + positive_entries (in_degree st))")
    apply simp
   apply (auto dest!: unlock_measure)
  done

declare run_loop.simps [simp del]

text \<open>
  The part of \<^verbatim>\<open>run_steps_execution_phase\<close> from the dictionary of steps on: the graph is
  built, the queue starts with the steps of in-degree 0 in the order of the dictionary,
  and the loop runs.
\<close>

definition initial_state :: "int dict \<Rightarrow> 'w \<Rightarrow> 'w sched" where
  "initial_state in_deg w =
     \<lparr>queue = map fst (filter (\<lambda>(step_num, degree). degree = 0) in_deg),
      in_degree = in_deg, completed_steps = {}, calls = [], world = w\<rparr>"

definition schedule :: "'w execute_step \<Rightarrow> task dict \<Rightarrow> 'w \<Rightarrow> outcome \<times> 'w sched" where
  "schedule exec steps w =
     (case build_graph steps of
        Inl (step_num, dep_num) \<Rightarrow>
          (Dangling step_num dep_num,
           \<lparr>queue = [], in_degree = [], completed_steps = {}, calls = [], world = w\<rparr>)
      | Inr (adj_list, in_deg) \<Rightarrow> run_loop exec steps adj_list (initial_state in_deg w))"

text \<open>
  \<^verbatim>\<open>run_steps_execution_phase\<close>: \<open>tasks_data\<close> is the list under \<^verbatim>\<open>"steps"\<close> of the task file
  (\<open>None\<close> when the file or the key is missing) and \<open>current_env_name\<close> the name of the
  environment.
\<close>

definition run_steps_execution_phase ::
    "'w execute_step \<Rightarrow> task list option \<Rightarrow> pystr option \<Rightarrow> 'w \<Rightarrow> outcome \<times> 'w sched" where
  "run_steps_execution_phase exec tasks_data current_env_name w =
     (let idle = \<lparr>queue = [], in_degree = [], completed_steps = {}, calls = [], world = w\<rparr> in
      case tasks_data of
        None \<Rightarrow> (NoSteps, idle)
      | Some tasks \<Rightarrow>
          if tasks = [] then (NoSteps, idle)
          else if current_env_name = None \<or> current_env_name = Some [] then (NoEnvironment, idle)
          else schedule exec (steps_dict tasks) w)"

text \<open>The steps a run has started, in the order of their start.\<close>

definition started :: "outcome \<times> 'w sched \<Rightarrow> int list" where
  "started r = map fst (calls (snd r))"

text \<open>A dictionary of steps from the pairs of a step number and its dependencies.\<close>

definition graph :: "(int \<times> int list) list \<Rightarrow> task dict" where
  "graph g = map (\<lambda>(n, deps).
     (n, \<lparr>step_number = n, dependencies = deps, step_type = None\<rparr>)) g"

text \<open>An \<^verbatim>\<open>execute_step\<close> that succeeds on every step and leaves the world as it is.\<close>

definition always_success :: "unit execute_step" where
  "always_success n t c w = (py ''success'', w)"

section \<open>Dependency scheduler: the terms of its properties\<close>

text \<open>The dependencies of a step of the dictionary (none for a number that is no step).\<close>

definition deps_of :: "task dict \<Rightarrow> int \<Rightarrow> int list" where
  "deps_of steps k = (case map_of steps k of None \<Rightarrow> [] | Some t \<Rightarrow> dependencies t)"

text \<open>No dangling dependency: every dependency of every step is a step.\<close>

definition no_dangling :: "task dict \<Rightarrow> bool" where
  "no_dangling steps \<longleftrightarrow> (\<forall>k\<in>fst ` set steps. set (deps_of steps k) \<subseteq> fst ` set steps)"

text \<open>
  The dependency graph as a relation: \<open>(d, k)\<close> when step \<open>k\<close> depends on \<open>d\<close>. A step is
  on a cycle when it reaches itself along the relation.
\<close>

definition depends_on :: "task dict \<Rightarrow> (int \<times> int) set" where
  "depends_on steps = {(d, k). d \<in> set (deps_of steps k)}"

definition cyclic :: "task dict \<Rightarrow> int \<Rightarrow> bool" where
  "cyclic steps t \<longleftrightarrow> (t, t) \<in> (depends_on steps)\<^sup>+"

text \<open>
  The result that \<^verbatim>\<open>execute_step\<close> gave at a call of the log, and what the calls of a run
  gave: \<^verbatim>\<open>'success'\<close> at every call; \<^verbatim>\<open>'aborted'\<close> or \<^verbatim>\<open>'skipped'\<close> at none.
\<close>

definition call_result ::
    "'w execute_step \<Rightarrow> task dict \<Rightarrow> int \<times> int set \<times> 'w \<Rightarrow> pystr option" where
  "call_result exec steps call =
     (case call of (t, c, w) \<Rightarrow> map_option (\<lambda>task. fst (exec t task c w)) (map_of steps t))"

definition all_succeed :: "'w execute_step \<Rightarrow> task dict \<Rightarrow> outcome \<times> 'w sched \<Rightarrow> bool" where
  "all_succeed exec steps r \<longleftrightarrow>
     list_all (\<lambda>call. call_result exec steps call = Some (py ''success'')) (calls (snd r))"

definition none_halts :: "'w execute_step \<Rightarrow> task dict \<Rightarrow> outcome \<times> 'w sched \<Rightarrow> bool" where
  "none_halts exec steps r \<longleftrightarrow>
     list_all (\<lambda>call. call_result exec steps call \<noteq> Some (py ''aborted'')
                    \<and> call_result exec steps call \<noteq> Some (py ''skipped'')) (calls (snd r))"

text \<open>
  First in, first out: after the steps \<open>before\<close> have started and with the steps
  \<open>waiting\<close> in the queue, the steps started in the end are \<open>before\<close>, then the waiting
  ones in their order, then others; or the run stops among the waiting ones.
\<close>

definition fifo :: "int list \<Rightarrow> int list \<Rightarrow> int list \<Rightarrow> bool" where
  "fifo before waiting after \<longleftrightarrow>
     (\<exists>more. after = before @ waiting @ more) \<or> (\<exists>k. after = before @ take k waiting)"

text \<open>An \<^verbatim>\<open>execute_step\<close> that ends every step with \<^verbatim>\<open>'aborted'\<close>.\<close>

definition always_aborted :: "unit execute_step" where
  "always_aborted n t c w = (py ''aborted'', w)"

text \<open>
  For the proofs: the dependents of a step as the graph lists them, the states that a
  pass of the loop leads to, the way the loop ends on an empty queue, and the invariant
  of the loop.
\<close>

definition dependents_of :: "task dict \<Rightarrow> int \<Rightarrow> int list" where
  "dependents_of steps d =
     concat (map (\<lambda>(s, t). replicate (count_list (dependencies t) d) s) steps)"

definition adj_ok :: "task dict \<Rightarrow> int list dict \<Rightarrow> bool" where
  "adj_ok steps adj_list \<longleftrightarrow>
     (\<forall>k\<in>fst ` set steps. map_of adj_list k = Some (dependents_of steps k))"

definition begun :: "'w sched \<Rightarrow> int \<Rightarrow> int list \<Rightarrow> 'w \<Rightarrow> 'w sched" where
  "begun st t rest w' =
     st\<lparr>queue := rest, calls := calls st @ [(t, completed_steps st, world st)], world := w'\<rparr>"

definition completed :: "'w sched \<Rightarrow> int \<Rightarrow> int list \<Rightarrow> int dict \<Rightarrow> 'w \<Rightarrow> 'w sched" where
  "completed st t q' deg' w' =
     st\<lparr>queue := q', in_degree := deg',
        completed_steps := insert t (completed_steps st),
        calls := calls st @ [(t, completed_steps st, world st)], world := w'\<rparr>"

definition finished :: "task dict \<Rightarrow> 'w sched \<Rightarrow> outcome \<times> 'w sched" where
  "finished steps st =
     (if card (completed_steps st) = length steps then (AllDone, st)
      else (Incomplete (card (completed_steps st)) (length steps), st))"

definition sched_inv :: "task dict \<Rightarrow> 'w sched \<Rightarrow> bool" where
  "sched_inv steps st \<longleftrightarrow>
     map fst (in_degree st) = map fst steps
   \<and> (\<forall>k\<in>fst ` set steps. map_of (in_degree st) k
        = Some (int (length (filter (\<lambda>d. d \<notin> completed_steps st) (deps_of steps k)))))
   \<and> distinct (queue st @ map fst (calls st))
   \<and> set (queue st) \<union> fst ` set (calls st)
       = {k \<in> fst ` set steps. set (deps_of steps k) \<subseteq> completed_steps st}
   \<and> completed_steps st \<subseteq> fst ` set (calls st)
   \<and> (\<forall>pre t c w post. calls st = pre @ (t, c, w) # post \<longrightarrow>
         set (deps_of steps t) \<subseteq> c \<and> c \<subseteq> fst ` set pre)"

definition run_ok :: "'w execute_step \<Rightarrow> task dict \<Rightarrow> outcome \<times> 'w sched \<Rightarrow> bool" where
  "run_ok exec steps r \<longleftrightarrow>
     sched_inv steps (snd r) \<and> fst r \<noteq> KeyError
     \<and> ((\<forall>b. fst r \<noteq> Halted b)
          \<longrightarrow> queue (snd r) = [] \<and> fst r = fst (finished steps (snd r)))
     \<and> ((\<exists>b. fst r = Halted b) \<longrightarrow> \<not> none_halts exec steps r)"

section \<open>Task attempt loop\<close>

text \<open>
  The literals of \<^verbatim>\<open>step_handler.py\<close>, as code points. In the order of the definitions:
  the three messages of \<^verbatim>\<open>_validate_initial_code_response\<close> and
  \<^verbatim>\<open>_validate_modification_instructions_response\<close> (not a JSON object, no \<^verbatim>\<open>'files'\<close> key, no
  \<^verbatim>\<open>'modifications'\<close> key, no \<^verbatim>\<open>'usage_guide'\<close> object); the prefix of a shape feedback
  (\<^verbatim>\<open>JSON\<close>, four Chinese characters, a colon and a blank); the two headers of the feedback
  section, each ending in two line feeds; the delimiter \<^verbatim>\<open>"\n---\n"\<close>; the feedback of a
  failed build and of failed modifications; the prefixes of the inspector's and of the
  user's feedback; the message of a missing workspace; the three parts of the feedback
  of a failed install; the two headings of the install log.
\<close>

definition msg_not_dict :: pystr where
  "msg_not_dict = [76, 76, 77, 21709, 24212, 19981, 26159, 19968, 20010, 26377, 25928, 30340,
     74, 83, 79, 78, 23545, 35937, 12290]"

definition msg_no_files :: pystr where
  "msg_no_files = [74, 83, 79, 78, 21709, 24212, 20013, 32570, 23569, 39, 102, 105, 108, 101,
     115, 39, 38190, 12290]"

definition msg_no_modifications :: pystr where
  "msg_no_modifications = [74, 83, 79, 78, 21709, 24212, 20013, 32570, 23569, 39, 109, 111,
     100, 105, 102, 105, 99, 97, 116, 105, 111, 110, 115, 39, 38190, 12290]"

definition msg_no_usage_guide :: pystr where
  "msg_no_usage_guide = [74, 83, 79, 78, 21709, 24212, 20013, 32570, 23569, 39, 117, 115, 97,
     103, 101, 95, 103, 117, 105, 100, 101, 39, 23545, 35937, 12290]"

definition json_format_error :: pystr where
  "json_format_error = [74, 83, 79, 78, 26684, 24335, 38169, 35823, 58, 32]"

definition history_header_initial :: pystr where
  "history_header_initial = [20320, 20043, 21069, 30340, 23581, 35797, 22833, 36133, 20102,
     12290, 35831, 20998, 26512, 19979, 38754, 30340, 22833, 36133, 21382, 21490, 65292,
     20462, 27491, 20320, 30340, 20195, 30721, 46, 46, 46, 10, 10]"

definition history_header_modification :: pystr where
  "history_header_modification = [20320, 20043, 21069, 30340, 23581, 35797, 22833, 36133,
     20102, 12290, 35831, 20998, 26512, 19979, 38754, 30340, 22833, 36133, 21382, 21490, 46,
     46, 46, 10, 10]"

definition history_delimiter :: pystr where
  "history_delimiter = [10, 45, 45, 45, 10]"

definition msg_build_failed :: pystr where
  "msg_build_failed = [26080, 27861, 26681, 25454, 20320, 36820, 22238, 30340, 74, 83, 79, 78,
     26500, 24314, 39033, 30446, 25991, 20214, 32467, 26500, 12290]"

definition msg_modifications_failed :: pystr where
  "msg_modifications_failed = [24212, 29992, 20320, 25552, 20379, 30340, 20462, 25913, 25351,
     20196, 22833, 36133, 12290]"

definition inspector_prefix :: pystr where
  "inspector_prefix = [12304, 20195, 30721, 26816, 23519, 21592, 21453, 39304, 12305, 58, 10]"

definition user_prefix :: pystr where
  "user_prefix = [12304, 29992, 25143, 21453, 39304, 12305, 58, 10]"

definition msg_no_workspace :: pystr where
  "msg_no_workspace = [39033, 30446, 24037, 20316, 21306, 26410, 25214, 21040]"

definition install_failed_1 :: pystr where
  "install_failed_1 = [20381, 36182, 23433, 35013, 22833, 36133, 12290, 35831, 20462, 27491,
     32, 96]"

definition install_failed_2 :: pystr where
  "install_failed_2 = [96, 12290, 38169, 35823, 26085, 24535, 58, 10, 45, 45, 45, 10]"

definition install_failed_3 :: pystr where
  "install_failed_3 = [10, 45, 45, 45]"

definition install_log_1 :: pystr where
  "install_log_1 = [45, 45, 45, 32, 83, 84, 68, 79, 85, 84, 32, 45, 45, 45, 10]"

definition install_log_2 :: pystr where
  "install_log_2 = [10, 10, 45, 45, 45, 32, 83, 84, 68, 69, 82, 82, 32, 45, 45, 45, 10]"

text \<open>\<^verbatim>\<open>dict.get\<close> on a JSON value that is an object, and the truth value of a JSON value.\<close>

fun json_get :: "json \<Rightarrow> pystr \<Rightarrow> json option" where
  "json_get (JObj data) k = map_of data k"
| "json_get j k = None"

fun truthy :: "json \<Rightarrow> bool" where
  "truthy JNull = False"
| "truthy (JBool b) = b"
| "truthy (JNum n) = (n \<noteq> 0)"
| "truthy (JStr s) = (s \<noteq> [])"
| "truthy (JArr xs) = (xs \<noteq> [])"
| "truthy (JObj data) = (data \<noteq> [])"

text \<open>
  The two shape validations: the response is an object, and it has the keys that the
  kind of step needs.
\<close>

definition validate_initial_code_response :: "json \<Rightarrow> bool \<times> pystr" where
  "validate_initial_code_response response =
     (case response of
        JObj data \<Rightarrow>
          if map_of data (py ''files'') = None then (False, msg_no_files)
          else if map_of data (py ''usage_guide'') = None then (False, msg_no_usage_guide)
          else (True, [])
      | _ \<Rightarrow> (False, msg_not_dict))"

definition validate_modification_instructions_response :: "json \<Rightarrow> bool \<times> pystr" where
  "validate_modification_instructions_response response =
     (case response of
        JObj data \<Rightarrow>
          if map_of data (py ''modifications'') = None then (False, msg_no_modifications)
          else if map_of data (py ''usage_guide'') = None then (False, msg_no_usage_guide)
          else (True, [])
      | _ \<Rightarrow> (False, msg_not_dict))"

text \<open>
  The feedback section of a prompt: empty on the first attempt, then the header and the
  feedback of every earlier attempt, joined by the delimiter.
\<close>

definition feedback_section :: "pystr \<Rightarrow> pystr list \<Rightarrow> pystr" where
  "feedback_section header cumulative_feedback =
     (if cumulative_feedback = [] then []
      else header @ join history_delimiter cumulative_feedback)"

text \<open>
  What the workspace logs of an attempt loop: a call of the generator (step, attempt,
  feedback section, prompt, and the response, \<open>None\<close> when the call raised), a call of a
  builder (step, attempt, its return value), and the two copies of
  \<^verbatim>\<open>mark_step_as_successful\<close> (the step and the tree copied).
\<close>

datatype event =
    Generated int nat pystr pystr "json option"
  | BuilderCalled int nat bool
  | SnapshotSaved int tree
  | LatestUpdated int tree

text \<open>
  The workspace: the attempt directories \<^verbatim>\<open>step_n_attempts/attempt_m\<close>, the accepted
  snapshots \<^verbatim>\<open>successful_steps/step_n\<close>, the directory \<^verbatim>\<open>latest_successful_code\<close>, and the
  log of events. Each directory is absent (\<open>None\<close>) or holds a tree.
\<close>

record store =
  attempts :: "int \<times> nat \<Rightarrow> tree option"
  successful :: "int \<Rightarrow> tree option"
  latest :: "tree option"
  events :: "event list"

text \<open>
  The collaborators of the step handler, which are outside the engine. Each answers from
  the workspace as it is at the call (the log of events grows with every call of the
  generator, so the answers may change from attempt to attempt). \<open>None\<close> stands for an
  exception.
  \<^item> \<open>project_definition\<close>: the project definition document.
  \<^item> \<open>max_attempts\<close>: the attempt cap.
  \<^item> \<open>format_prompt\<close>: \<^verbatim>\<open>load_and_format_prompt\<close> for a template, a step, its task, the
    completed steps and a feedback section (the other arguments are read from the
    workspace).
  \<^item> \<open>generate_response\<close>: the generator, for a prompt.
  \<^item> \<open>json_loads\<close>, \<open>json_dumps\<close>: the JSON library.
  \<^item> \<open>run_inspection\<close>: the review gate, for a step, an attempt and the completed steps:
    approved or not, the feedback, and the text that it saves as
    \<^verbatim>\<open>inspector_feedback.txt\<close>, if any.
  \<^item> \<open>install_dependencies\<close>: the install gate, for a step, an attempt and the name of the
    manifest: success, stdout, stderr.
  \<^item> \<open>run_tests\<close>: the test runner, for a step, an attempt and the tests declared: passed
    or not, and the feedback.
  \<^item> \<open>prompt_for_manual_execution\<close>: the human gate, for a step and an attempt: the action
    (\<^verbatim>\<open>'success'\<close>, \<^verbatim>\<open>'failure'\<close>, \<^verbatim>\<open>'skip'\<close>, \<^verbatim>\<open>'abort'\<close>) and the feedback.
  \<^item> \<open>summarize\<close>: the text of the summary of an accepted step, if one is produced.

  The workspace is set throughout (\<^verbatim>\<open>current_workspace\<close> is the store), so the branch of
  \<^verbatim>\<open>_build_and_verify\<close> for a missing workspace is not reached: \<^verbatim>\<open>get_step_attempt_path\<close>
  raises before it. Operations of the file system on the workspace's own directories
  (making, removing and copying a directory) succeed.
\<close>

record env =
  project_definition :: "json option"
  max_attempts :: int
  format_prompt :: "store \<Rightarrow> pystr \<Rightarrow> int \<Rightarrow> task \<Rightarrow> int set \<Rightarrow> pystr \<Rightarrow> pystr option"
  generate_response :: "store \<Rightarrow> pystr \<Rightarrow> json option"
  json_loads :: "pystr \<Rightarrow> json option"
  json_dumps :: "json \<Rightarrow> pystr"
  run_inspection :: "store \<Rightarrow> int \<Rightarrow> nat \<Rightarrow> int set \<Rightarrow> bool \<times> pystr \<times> pystr option"
  install_dependencies :: "store \<Rightarrow> int \<Rightarrow> nat \<Rightarrow> pystr \<Rightarrow> bool \<times> pystr \<times> pystr"
  run_tests :: "store \<Rightarrow> int \<Rightarrow> nat \<Rightarrow> json \<Rightarrow> bool \<times> pystr"
  prompt_for_manual_execution :: "store \<Rightarrow> int \<Rightarrow> nat \<Rightarrow> pystr \<times> pystr option"
  summarize :: "store \<Rightarrow> int \<Rightarrow> pystr option"

text \<open>
  The result of a step: the action and its payload, or \<open>Unmodelled\<close> when the step left
  what the model follows: a path that leaves the attempt directory (see the tree
  builder), or a \<^verbatim>\<open>line_diff\<close> instruction whose \<^verbatim>\<open>diffs\<close> are not of the expected types.
\<close>

datatype step_result = Result pystr "pystr option" | Unmodelled

text \<open>How a pass of an attempt loop ends: \<^verbatim>\<open>continue\<close> with a feedback, or \<^verbatim>\<open>return\<close>.\<close>

datatype attempt_end = Continue pystr | Return step_result

text \<open>
  A file of the workspace's own (a log, a feedback) written into a directory; a failure
  of the write is caught and logged by the source, and the tree is as the write left it.
\<close>

definition write_quiet :: "tree \<Rightarrow> pystr \<Rightarrow> pystr \<Rightarrow> tree" where
  "write_quiet t name content =
     (case write_file t [name] content of Ok t' \<Rightarrow> t' | Failed t' \<Rightarrow> t' | Outside \<Rightarrow> t)"

text \<open>\<^verbatim>\<open>get_step_attempt_path\<close>: the attempt directory is made when it is missing.\<close>

definition get_step_attempt_path :: "store \<Rightarrow> int \<Rightarrow> nat \<Rightarrow> store" where
  "get_step_attempt_path s step_num attempt_number =
     (case attempts s (step_num, attempt_number) of
        Some t \<Rightarrow> s
      | None \<Rightarrow> s\<lparr>attempts := (attempts s)((step_num, attempt_number) \<mapsto> Map.empty)\<rparr>)"

definition attempt_tree :: "store \<Rightarrow> int \<Rightarrow> nat \<Rightarrow> tree" where
  "attempt_tree s step_num attempt_number =
     (case attempts s (step_num, attempt_number) of Some t \<Rightarrow> t | None \<Rightarrow> Map.empty)"

definition set_attempt_tree :: "store \<Rightarrow> int \<Rightarrow> nat \<Rightarrow> tree \<Rightarrow> store" where
  "set_attempt_tree s step_num attempt_number t =
     s\<lparr>attempts := (attempts s)((step_num, attempt_number) \<mapsto> t)\<rparr>"

text \<open>
  \<^verbatim>\<open>save_step_code_generation_output\<close>: the response is dumped into the attempt directory;
  \<open>None\<close> when the file cannot be opened, which the source raises again.
\<close>

definition save_step_code_generation_output ::
    "env \<Rightarrow> store \<Rightarrow> int \<Rightarrow> nat \<Rightarrow> json \<Rightarrow> store option" where
  "save_step_code_generation_output e s step_num attempt_number code_json =
     (let s1 = get_step_attempt_path s step_num attempt_number
      in case write_file (attempt_tree s1 step_num attempt_number)
                [py ''code_generation_output.json''] (json_dumps e code_json) of
           Ok t \<Rightarrow> Some (set_attempt_tree s1 step_num attempt_number t)
         | _ \<Rightarrow> None)"

text \<open>
  \<^verbatim>\<open>mark_step_as_successful\<close>: the snapshot of the step and the latest tree are each removed
  and copied anew from the attempt directory.
\<close>

definition mark_step_as_successful :: "store \<Rightarrow> int \<Rightarrow> tree \<Rightarrow> store" where
  "mark_step_as_successful s step_num successful_attempt =
     (let s1 = s\<lparr>successful := (successful s)(step_num := None)\<rparr>;
          s2 = s1\<lparr>successful := (successful s1)(step_num \<mapsto> successful_attempt),
                  events := events s1 @ [SnapshotSaved step_num successful_attempt]\<rparr>;
          s3 = s2\<lparr>latest := None\<rparr>
      in s3\<lparr>latest := Some successful_attempt,
             events := events s3 @ [LatestUpdated step_num successful_attempt]\<rparr>)"

text \<open>
  \<^verbatim>\<open>_summarize_successful_step\<close>: a summary that the generator produced is written into the
  snapshot of the step as \<^verbatim>\<open>step_summary.json\<close>.
\<close>

definition summarize_successful_step :: "env \<Rightarrow> store \<Rightarrow> int \<Rightarrow> store" where
  "summarize_successful_step e s step_num =
     (case project_definition e of
        None \<Rightarrow> s
      | Some project_def \<Rightarrow>
          if \<not> truthy project_def then s
          else (case successful s step_num of
                  None \<Rightarrow> s
                | Some snapshot \<Rightarrow>
                    (case summarize e s step_num of
                       None \<Rightarrow> s
                     | Some summary \<Rightarrow>
                         s\<lparr>successful := (successful s)(step_num \<mapsto>
                              write_quiet snapshot (py ''step_summary.json'') summary)\<rparr>)))"

text \<open>
  The name of the dependency manifest: \<^verbatim>\<open>llm_response.get("dependency_file") or
  "requirements.txt"\<close>; \<open>None\<close> when the value is neither a string nor false, on which the
  path operation raises.
\<close>

definition dependency_file_name :: "json \<Rightarrow> pystr option" where
  "dependency_file_name llm_response =
     (case json_get llm_response (py ''dependency_file'') of
        None \<Rightarrow> Some (py ''requirements.txt'')
      | Some (JStr name) \<Rightarrow> Some (if name = [] then py ''requirements.txt'' else name)
      | Some j \<Rightarrow> if truthy j then None else Some (py ''requirements.txt''))"

text \<open>
  The install gate: when the manifest exists in the attempt directory it is sanitized,
  and when it is not empty afterwards the dependencies are installed and the log is
  saved. The result is the feedback of a failed install, if any, and the store; \<open>None\<close>
  when the manifest's path leaves the attempt directory.
\<close>

definition install_gate ::
    "env \<Rightarrow> int \<Rightarrow> nat \<Rightarrow> pystr \<Rightarrow> store \<Rightarrow> (pystr option \<times> store) option" where
  "install_gate e step_num attempt_number name s =
     (let t = attempt_tree s step_num attempt_number
      in if is_absolute name then None
         else case locate t [] (path_parts name) of
                Beyond \<Rightarrow> None
              | Missing \<Rightarrow> Some (None, s)
              | Found loc entry \<Rightarrow>
                  (let t1 = (case entry of
                               File content \<Rightarrow> t(loc \<mapsto> File (sanitize_dependency_file content))
                             | Dir \<Rightarrow> t);
                       s1 = set_attempt_tree s step_num attempt_number t1
                   in if t1 loc = Some (File []) then Some (None, s1)
                      else (case install_dependencies e s1 step_num attempt_number name of
                              (install_success, stdout, stderr) \<Rightarrow>
                                (let s2 = set_attempt_tree s1 step_num attempt_number
                                            (write_quiet t1 (py ''install_log.txt'')
                                               (install_log_1 @ stdout @ install_log_2 @ stderr))
                                 in if install_success then Some (None, s2)
                                    else Some (Some (install_failed_1 @ name @ install_failed_2
                                                      @ stderr @ install_failed_3), s2)))))"

text \<open>The value of \<^verbatim>\<open>llm_response.get("main_executable")\<close>, when it is a string.\<close>

definition main_executable :: "json \<Rightarrow> pystr option" where
  "main_executable llm_response =
     (case json_get llm_response (py ''main_executable'') of Some (JStr m) \<Rightarrow> Some m | _ \<Rightarrow> None)"

text \<open>
  The end of \<^verbatim>\<open>_build_and_verify\<close>, after the human gate: on \<^verbatim>\<open>'success'\<close> the attempt is marked
  successful and summarized; a feedback makes the attempt a failure; every other action
  is returned as it is.
\<close>

definition accept_or_reject ::
    "env \<Rightarrow> int \<Rightarrow> nat \<Rightarrow> json \<Rightarrow> pystr \<times> pystr option \<Rightarrow> store \<Rightarrow> step_result \<times> store" where
  "accept_or_reject e step_num attempt_number llm_response answer s =
     (case answer of
        (action, feedback) \<Rightarrow>
          if action = py ''success''
          then (Result (py ''success'') (main_executable llm_response),
                summarize_successful_step e
                  (mark_step_as_successful s step_num (attempt_tree s step_num attempt_number))
                  step_num)
          else (case feedback of
                  None \<Rightarrow> (Result action None, s)
                | Some fb \<Rightarrow>
                    if fb = [] then (Result action None, s)
                    else (Result (py ''failure'') (Some (user_prefix @ fb)),
                          set_attempt_tree s step_num attempt_number
                            (write_quiet (attempt_tree s step_num attempt_number)
                               (py ''user_feedback.txt'') fb))))"

text \<open>
  \<^verbatim>\<open>_build_and_verify\<close>: the gates in their order (review, install, tests, human), each
  ending the attempt at its failure. The review reads the attempt directory first
  (\<^verbatim>\<open>load_attempt_code_as_json\<close>), which makes it when it is missing.
\<close>

definition build_and_verify ::
    "env \<Rightarrow> int \<Rightarrow> nat \<Rightarrow> json \<Rightarrow> int set \<Rightarrow> store \<Rightarrow> step_result \<times> store" where
  "build_and_verify e step_num attempt_number llm_response done_steps s =
     (let s0 = get_step_attempt_path s step_num attempt_number
      in case run_inspection e s0 step_num attempt_number done_steps of
        (is_approved, inspector_feedback, saved) \<Rightarrow>
          (let s1 = (case saved of
                       None \<Rightarrow> s0
                     | Some feedback \<Rightarrow>
                         set_attempt_tree s0 step_num attempt_number
                           (write_quiet (attempt_tree s0 step_num attempt_number)
                              (py ''inspector_feedback.txt'') feedback))
           in if \<not> is_approved
              then (Result (py ''failure'') (Some (inspector_prefix @ inspector_feedback)), s1)
              else (case dependency_file_name llm_response of
                      None \<Rightarrow> (Result (py ''aborted'') None, s1)
                    | Some name \<Rightarrow>
                        (case install_gate e step_num attempt_number name s1 of
                           None \<Rightarrow> (Unmodelled, s1)
                         | Some (Some ai_feedback, s2) \<Rightarrow>
                             (Result (py ''failure'') (Some ai_feedback), s2)
                         | Some (None, s2) \<Rightarrow>
                             (let tests_to_run =
                                    (case json_get llm_response (py ''tests_to_run'') of
                                       None \<Rightarrow> JArr [] | Some j \<Rightarrow> j);
                                  tested = (if truthy tests_to_run
                                            then run_tests e s2 step_num attempt_number tests_to_run
                                            else (True, []))
                              in if \<not> fst tested
                                 then (Result (py ''failure'') (Some (snd tested)), s2)
                                 else accept_or_reject e step_num attempt_number llm_response
                                        (prompt_for_manual_execution e s2 step_num attempt_number)
                                        s2)))))"

text \<open>
  The entries of \<^verbatim>\<open>files\<close> and of \<^verbatim>\<open>modifications\<close> of a well-typed response, read from the
  JSON value: a field is absent or of the type that the builder expects; \<open>None\<close> for every
  other value.
\<close>

definition decode_str :: "json option \<Rightarrow> pystr option option" where
  "decode_str v = (case v of None \<Rightarrow> Some None | Some (JStr s) \<Rightarrow> Some (Some s) | _ \<Rightarrow> None)"

definition decode_int :: "json option \<Rightarrow> int option option" where
  "decode_int v = (case v of None \<Rightarrow> Some None | Some (JNum n) \<Rightarrow> Some (Some n) | _ \<Rightarrow> None)"



definition decode_diff :: "json \<Rightarrow> line_diff option" where
  "decode_diff j =
     (case j of
        JObj data \<Rightarrow>
          (case (decode_int (map_of data (py ''start_line'')),
                 decode_int (map_of data (py ''end_line'')),
                 decode_str (map_of data (py ''new_content''))) of
             (Some a, Some b, Some c) \<Rightarrow> Some \<lparr>start_line = a, end_line = b, new_content = c\<rparr>
           | _ \<Rightarrow> None)
      | _ \<Rightarrow> None)"

definition decode_diffs :: "json option \<Rightarrow> line_diff list option" where
  "decode_diffs v =
     (case v of
        None \<Rightarrow> Some []
      | Some (JArr entries) \<Rightarrow> those (map decode_diff entries)
      | _ \<Rightarrow> None)"



text \<open>
  The builders on the JSON response itself. \<^verbatim>\<open>build_project_structure\<close> and
  \<^verbatim>\<open>apply_modifications\<close> read every entry with \<^verbatim>\<open>dict.get\<close> and catch every exception, so
  an entry of the wrong shape makes the build fail at that entry, after the entries
  before it have been written:
  \<^item> an entry that is not an object has no \<^verbatim>\<open>get\<close>, and the build fails;
  \<^item> a \<^verbatim>\<open>path\<close> that is false (absent, \<^verbatim>\<open>null\<close>, \<^verbatim>\<open>false\<close>, 0, empty) skips the entry, and a
    \<^verbatim>\<open>path\<close> that is true and not a string makes the path operation raise;
  \<^item> a \<^verbatim>\<open>content\<close> that is not a string makes \<^verbatim>\<open>write_text\<close> raise, after the parent
    directories have been made (the unwrapping of the manifest catches the \<^verbatim>\<open>TypeError\<close>
    of the parser and returns the content as it is);
  \<^item> a \<^verbatim>\<open>type\<close> that is not a string is equal to none of the four types, and the
    instruction is ignored.
\<close>

definition is_text :: "json option \<Rightarrow> bool" where
  "is_text v = (case v of None \<Rightarrow> True | Some (JStr s) \<Rightarrow> True | _ \<Rightarrow> False)"

definition text_of :: "json option \<Rightarrow> pystr option" where
  "text_of v = (case v of Some (JStr s) \<Rightarrow> Some s | _ \<Rightarrow> None)"

text \<open>
  \<^verbatim>\<open>full_path.parent.mkdir(parents=True, exist_ok=True)\<close> followed by a \<^verbatim>\<open>write_text\<close> that
  raises.
\<close>

definition write_text_raises :: "tree \<Rightarrow> pystr \<Rightarrow> tree step" where
  "write_text_raises t file_path_str =
     (if is_absolute file_path_str then Outside
      else case mkdirs t [] (butlast (path_parts file_path_str)) of
             Ok (t', cur) \<Rightarrow> Failed t'
           | Failed t' \<Rightarrow> Failed t'
           | Outside \<Rightarrow> Outside)"

text \<open>The loop of \<^verbatim>\<open>build_project_structure\<close> over the entries of \<^verbatim>\<open>files\<close>.\<close>

fun write_json_files :: "(pystr \<Rightarrow> json option) \<Rightarrow> json list \<Rightarrow> tree \<Rightarrow> build_result" where
  "write_json_files loads [] t = Built True t"
| "write_json_files loads (file_info # files) t =
     (case file_info of
        JObj data \<Rightarrow>
          (case map_of data (py ''path'') of
             None \<Rightarrow> write_json_files loads files t
           | Some (JStr file_path_str) \<Rightarrow>
               if file_path_str = [] then write_json_files loads files t
               else if \<not> is_text (map_of data (py ''content''))
               then (case write_text_raises t file_path_str of
                       Outside \<Rightarrow> Escaped
                     | Failed t' \<Rightarrow> Built False t'
                     | Ok t' \<Rightarrow> Built False t')
               else (case write_files loads
                            [\<lparr>fi_path = Some file_path_str,
                              fi_content = text_of (map_of data (py ''content''))\<rparr>] t of
                       Built True t' \<Rightarrow> write_json_files loads files t'
                     | Built False t' \<Rightarrow> Built False t'
                     | Escaped \<Rightarrow> Escaped)
           | Some j \<Rightarrow> if truthy j then Built False t else write_json_files loads files t)
      | _ \<Rightarrow> Built False t)"

text \<open>
  \<^verbatim>\<open>build_project_structure\<close> on the value of \<^verbatim>\<open>llm_response.get("files", [])\<close>: the target is
  removed and made anew; a value that is false builds nothing and succeeds; a value that
  is true and not a list fails at its first element (a character, a key) or because it
  cannot be iterated.
\<close>

definition build_json_files ::
    "(pystr \<Rightarrow> json option) \<Rightarrow> json option \<Rightarrow> tree option \<Rightarrow> build_result" where
  "build_json_files loads files base_path =
     (case (if base_path \<noteq> None then rmtree base_path else base_path) of
        Some t \<Rightarrow> Built False t
      | None \<Rightarrow>
          (case files of
             None \<Rightarrow> Built True Map.empty
           | Some (JArr entries) \<Rightarrow> write_json_files loads entries Map.empty
           | Some j \<Rightarrow> if truthy j then Built False Map.empty else Built True Map.empty))"

text \<open>
  One instruction of \<^verbatim>\<open>apply_modifications\<close>. The result is \<open>None\<close> for a \<^verbatim>\<open>line_diff\<close>
  instruction whose \<^verbatim>\<open>diffs\<close> are not a list of objects with integer line numbers and a
  string as new content: what \<^verbatim>\<open>_apply_line_diffs\<close> does with such a list is not modelled.
\<close>

definition apply_json_instruction ::
    "(pystr \<Rightarrow> json option) \<Rightarrow> tree \<Rightarrow> json \<Rightarrow> tree step option" where
  "apply_json_instruction loads t instruction =
     (case instruction of
        JObj data \<Rightarrow>
          (case map_of data (py ''path'') of
             None \<Rightarrow> Some (Ok t)
           | Some (JStr rel_path_str) \<Rightarrow>
               (let mod_type = text_of (map_of data (py ''type''));
                    diffs = decode_diffs (map_of data (py ''diffs''))
                in if rel_path_str = [] then Some (Ok t)
                   else if (mod_type = Some (py ''replace_file'') \<or> mod_type = Some (py ''new_file''))
                           \<and> \<not> is_text (map_of data (py ''content''))
                   then Some (write_text_raises t rel_path_str)
                   else if mod_type = Some (py ''line_diff'') \<and> diffs = None then None
                   else Some (apply_instruction loads t
                                \<lparr>ins_type = mod_type, ins_path = Some rel_path_str,
                                 ins_content = text_of (map_of data (py ''content'')),
                                 ins_diffs = (case diffs of None \<Rightarrow> [] | Some ds \<Rightarrow> ds)\<rparr>))
           | Some j \<Rightarrow> if truthy j then Some (Failed t) else Some (Ok t))
      | _ \<Rightarrow> Some (Failed t))"

fun apply_json_instructions ::
    "(pystr \<Rightarrow> json option) \<Rightarrow> json list \<Rightarrow> tree \<Rightarrow> build_result option" where
  "apply_json_instructions loads [] t = Some (Built True t)"
| "apply_json_instructions loads (instruction # instructions) t =
     (case apply_json_instruction loads t instruction of
        None \<Rightarrow> None
      | Some (Ok t') \<Rightarrow> apply_json_instructions loads instructions t'
      | Some (Failed t') \<Rightarrow> Some (Built False t')
      | Some Outside \<Rightarrow> Some Escaped)"

text \<open>
  \<^verbatim>\<open>apply_modifications\<close> on the value of \<^verbatim>\<open>get("modifications", [])\<close>: the target is removed
  and the base copied into it; a value that cannot be iterated fails, an empty string or
  object does nothing, and a string or an object that is not empty fails at its first
  element.
\<close>

definition apply_json_modifications ::
    "(pystr \<Rightarrow> json option) \<Rightarrow> tree option \<Rightarrow> tree option \<Rightarrow> json option
       \<Rightarrow> build_result option" where
  "apply_json_modifications loads base_path target_path instructions =
     (case (if target_path \<noteq> None then rmtree target_path else target_path) of
        Some t \<Rightarrow> Some (Built False t)
      | None \<Rightarrow>
          (let t = (case base_path of Some b \<Rightarrow> b | None \<Rightarrow> Map.empty)
           in case instructions of
                None \<Rightarrow> Some (Built True t)
              | Some (JArr entries) \<Rightarrow> apply_json_instructions loads entries t
              | Some (JStr s) \<Rightarrow> Some (Built (s = []) t)
              | Some (JObj data) \<Rightarrow> Some (Built (data = []) t)
              | Some j \<Rightarrow> Some (Built False t)))"

text \<open>
  What follows a build in both attempt loops: a failed build is the feedback of the
  attempt; after a build the gates decide, and a failure with a feedback is the feedback
  of the attempt. The call of the builder is logged.
\<close>

definition after_build ::
    "env \<Rightarrow> int \<Rightarrow> nat \<Rightarrow> json \<Rightarrow> int set \<Rightarrow> pystr \<Rightarrow> store \<Rightarrow> build_result
       \<Rightarrow> attempt_end \<times> store" where
  "after_build e step_num attempt_number llm_response done_steps build_failed s built =
     (case built of
        Escaped \<Rightarrow> (Return Unmodelled, s)
      | Built build_success t \<Rightarrow>
          (let s1 = (set_attempt_tree s step_num attempt_number t)
                      \<lparr>events := events s @ [BuilderCalled step_num attempt_number build_success]\<rparr>
           in if \<not> build_success then (Continue build_failed, s1)
              else (case build_and_verify e step_num attempt_number llm_response done_steps s1 of
                      (Unmodelled, s2) \<Rightarrow> (Return Unmodelled, s2)
                    | (Result action result_payload, s2) \<Rightarrow>
                        if action = py ''success''
                        then (Return (Result (py ''success'') result_payload), s2)
                        else if action = py ''failure'' \<and> result_payload \<noteq> None
                                \<and> result_payload \<noteq> Some []
                        then (Continue (the result_payload), s2)
                        else (Return (Result action result_payload), s2))))"

text \<open>
  One pass of the loop of \<^verbatim>\<open>_execute_initial_generation_step\<close>, for the attempt number
  after the increment. Every exception ends the step with \<^verbatim>\<open>('aborted', None)\<close>.
\<close>

definition initial_attempt ::
    "env \<Rightarrow> int \<Rightarrow> task \<Rightarrow> nat \<Rightarrow> pystr list \<Rightarrow> store \<Rightarrow> attempt_end \<times> store" where
  "initial_attempt e step_num step_task attempt_number cumulative_feedback s =
     (let feedback = feedback_section history_header_initial cumulative_feedback
      in case format_prompt e s (py ''code_generation_step1'') step_num step_task {} feedback of
           None \<Rightarrow> (Return (Result (py ''aborted'') None), s)
         | Some prompt \<Rightarrow>
             (let answer = generate_response e s prompt;
                  s1 = s\<lparr>events := events s
                         @ [Generated step_num attempt_number feedback prompt answer]\<rparr>
              in case answer of
                   None \<Rightarrow> (Return (Result (py ''aborted'') None), s1)
                 | Some llm_response \<Rightarrow>
                     (case validate_initial_code_response llm_response of
                        (is_valid, error_msg) \<Rightarrow>
                          if \<not> is_valid then (Continue (json_format_error @ error_msg), s1)
                          else (case save_step_code_generation_output e s1 step_num
                                       attempt_number llm_response of
                                  None \<Rightarrow> (Return (Result (py ''aborted'') None),
                                            get_step_attempt_path s1 step_num attempt_number)
                                | Some s2 \<Rightarrow>
                                    after_build e step_num attempt_number llm_response {}
                                      msg_build_failed s2
                                      (build_json_files (json_loads e)
                                         (json_get llm_response (py ''files''))
                                         (attempts s2 (step_num, attempt_number)))))))"

text \<open>
  The loop of \<^verbatim>\<open>_execute_initial_generation_step\<close>, from an attempt counter and the feedback
  gathered so far.
\<close>

function initial_generation_loop ::
    "env \<Rightarrow> int \<Rightarrow> task \<Rightarrow> nat \<Rightarrow> pystr list \<Rightarrow> store \<Rightarrow> step_result \<times> store" where
  "initial_generation_loop e step_num step_task attempt_number cumulative_feedback s =
     (if int attempt_number < max_attempts e
      then (case initial_attempt e step_num step_task (attempt_number + 1)
                   cumulative_feedback s of
              (Continue feedback, s') \<Rightarrow>
                initial_generation_loop e step_num step_task (attempt_number + 1)
                  (cumulative_feedback @ [feedback]) s'
            | (Return r, s') \<Rightarrow> (r, s'))
      else (Result (py ''aborted'') None, s))"
  by pat_completeness auto
termination
  by (relation "measure (\<lambda>(e, step_num, step_task, attempt_number, cumulative_feedback, s).
                  nat (max_attempts e) - attempt_number)") auto

declare initial_generation_loop.simps [simp del]

text \<open>
  \<^verbatim>\<open>_execute_initial_generation_step\<close>: without a project definition the step is aborted
  before any attempt (the task is an object with a step number, so it is never empty).
\<close>

definition execute_initial_generation_step ::
    "env \<Rightarrow> int \<Rightarrow> task \<Rightarrow> store \<Rightarrow> step_result \<times> store" where
  "execute_initial_generation_step e step_num step_task s =
     (case project_definition e of
        None \<Rightarrow> (Result (py ''aborted'') None, s)
      | Some project_def \<Rightarrow>
          if \<not> truthy project_def then (Result (py ''aborted'') None, s)
          else initial_generation_loop e step_num step_task 0 [] s)"

text \<open>One pass of the loop of \<^verbatim>\<open>_execute_modification_step\<close>.\<close>

definition modification_attempt ::
    "env \<Rightarrow> int \<Rightarrow> task \<Rightarrow> int set \<Rightarrow> nat \<Rightarrow> pystr list \<Rightarrow> store \<Rightarrow> attempt_end \<times> store" where
  "modification_attempt e step_num step_task done_steps attempt_number cumulative_feedback s =
     (let feedback = feedback_section history_header_modification cumulative_feedback
      in case format_prompt e s (py ''code_modification'') step_num step_task done_steps feedback of
           None \<Rightarrow> (Return (Result (py ''aborted'') None), s)
         | Some prompt \<Rightarrow>
             (let answer = generate_response e s prompt;
                  s1 = s\<lparr>events := events s
                         @ [Generated step_num attempt_number feedback prompt answer]\<rparr>
              in case answer of
                   None \<Rightarrow> (Return (Result (py ''aborted'') None), s1)
                 | Some modification_instructions \<Rightarrow>
                     (case validate_modification_instructions_response
                             modification_instructions of
                        (is_valid, error_msg) \<Rightarrow>
                          if \<not> is_valid then (Continue (json_format_error @ error_msg), s1)
                          else (case save_step_code_generation_output e s1 step_num
                                       attempt_number modification_instructions of
                                  None \<Rightarrow> (Return (Result (py ''aborted'') None),
                                            get_step_attempt_path s1 step_num attempt_number)
                                | Some s2 \<Rightarrow>
                                    (case apply_json_modifications (json_loads e) (latest s2)
                                            (attempts s2 (step_num, attempt_number))
                                            (json_get modification_instructions
                                               (py ''modifications'')) of
                                       None \<Rightarrow> (Return Unmodelled, s2)
                                     | Some built \<Rightarrow>
                                         after_build e step_num attempt_number
                                           modification_instructions done_steps
                                           msg_modifications_failed s2 built)))))"

function modification_loop ::
    "env \<Rightarrow> int \<Rightarrow> task \<Rightarrow> int set \<Rightarrow> nat \<Rightarrow> pystr list \<Rightarrow> store \<Rightarrow> step_result \<times> store" where
  "modification_loop e step_num step_task done_steps attempt_number cumulative_feedback s =
     (if int attempt_number < max_attempts e
      then (case modification_attempt e step_num step_task done_steps (attempt_number + 1)
                   cumulative_feedback s of
              (Continue feedback, s') \<Rightarrow>
                modification_loop e step_num step_task done_steps (attempt_number + 1)
                  (cumulative_feedback @ [feedback]) s'
            | (Return r, s') \<Rightarrow> (r, s'))
      else (Result (py ''aborted'') None, s))"
  by pat_completeness auto
termination
  by (relation "measure (\<lambda>(e, step_num, step_task, done_steps, attempt_number,
                            cumulative_feedback, s).
                  nat (max_attempts e) - attempt_number)") auto

declare modification_loop.simps [simp del]

text \<open>
  \<^verbatim>\<open>_execute_modification_step\<close>: without a project definition or without the directory of
  the latest successful code the step is aborted before any attempt.
\<close>

definition execute_modification_step ::
    "env \<Rightarrow> int \<Rightarrow> task \<Rightarrow> int set \<Rightarrow> store \<Rightarrow> step_result \<times> store" where
  "execute_modification_step e step_num step_task done_steps s =
     (case project_definition e of
        None \<Rightarrow> (Result (py ''aborted'') None, s)
      | Some project_def \<Rightarrow>
          if \<not> truthy project_def \<or> latest s = None then (Result (py ''aborted'') None, s)
          else modification_loop e step_num step_task done_steps 0 [] s)"

text \<open>
  \<^verbatim>\<open>execute_step\<close>: a step without dependencies whose type is \<^verbatim>\<open>feature_development\<close> (the
  default) is generated from nothing, every other step modifies the latest tree.
\<close>

definition execute_step ::
    "env \<Rightarrow> int \<Rightarrow> task \<Rightarrow> int set \<Rightarrow> store \<Rightarrow> step_result \<times> store" where
  "execute_step e step_num step_task done_steps s =
     (if dependencies step_task = []
         \<and> (case step_type step_task of None \<Rightarrow> py ''feature_development'' | Some ty \<Rightarrow> ty)
             = py ''feature_development''
      then execute_initial_generation_step e step_num step_task s
      else execute_modification_step e step_num step_task done_steps s)"


section \<open>Terms of the properties of the attempt loop\<close>

text \<open>
  The feedback that the initial generation step records for a call of the generator
  whose response fails the shape validation: the prefix and the message of the
  validation.
\<close>

definition shape_feedback :: "event \<Rightarrow> pystr" where
  "shape_feedback ev =
     (case ev of
        Generated n k fs p (Some r) \<Rightarrow> json_format_error @ snd (validate_initial_code_response r)
      | _ \<Rightarrow> [])"

text \<open>
  An environment for the examples: the cap is three attempts, the prompt is the feedback
  section, and the generator answers first with a list, then with an object without
  \<^verbatim>\<open>files\<close>, then with an object without \<^verbatim>\<open>usage_guide\<close>. The gates accept everything.
\<close>

definition rejected_responses :: env where
  "rejected_responses =
     \<lparr>project_definition = Some (JObj [(py ''name'', JStr (py ''demo''))]),
      max_attempts = 3,
      format_prompt = (\<lambda>s template step_num step_task done_steps feedback. Some feedback),
      generate_response = (\<lambda>s prompt.
         Some (if length (events s) = 0 then JArr []
               else if length (events s) = 1 then JObj []
               else JObj [(py ''files'', JArr [])])),
      json_loads = (\<lambda>text. None),
      json_dumps = (\<lambda>j. []),
      run_inspection = (\<lambda>s step_num attempt_number done_steps. (True, [], None)),
      install_dependencies = (\<lambda>s step_num attempt_number name. (True, [], [])),
      run_tests = (\<lambda>s step_num attempt_number tests. (True, [])),
      prompt_for_manual_execution = (\<lambda>s step_num attempt_number. (py ''success'', None)),
      summarize = (\<lambda>s step_num. None)\<rparr>"

definition first_task :: task where
  "first_task = \<lparr>step_number = 1, dependencies = [], step_type = None\<rparr>"

definition new_workspace :: store where
  "new_workspace = \<lparr>attempts = (\<lambda>a. None), successful = (\<lambda>n. None), latest = None, events = []\<rparr>"

section \<open>Terms of the properties of acceptance\<close>


text \<open>
  A workspace grows into another when the log is extended and no snapshot is lost.
\<close>

definition grows :: "store \<Rightarrow> store \<Rightarrow> bool" where
  "grows s s' \<longleftrightarrow>
     (\<exists>new. events s' = events s @ new)
     \<and> (\<forall>n. successful s n \<noteq> None \<longrightarrow> successful s' n \<noteq> None)"











section \<open>Properties of the line-range edits\<close>

lemma insort_key_last:
  fixes g :: "'a \<Rightarrow> int"
  shows "\<forall>y\<in>set ys. g y < g x \<Longrightarrow> insort_key g x ys = ys @ [x]"
  by (induction ys) auto

lemma sort_key_rev:
  fixes f :: "'a \<Rightarrow> int"
  shows "sorted_wrt (\<lambda>a b. f a < f b) xs \<Longrightarrow> sort_key (\<lambda>x. - f x) xs = rev xs"
  by (induction xs) (auto simp: insort_key_last)

lemma foldl_skip: "\<forall>d\<in>set ds. range_invalid ls d \<Longrightarrow> foldl apply_diff ls ds = ls"
  by (induction ds) (auto simp: apply_diff_def)

lemma split_plain:
  "\<forall>c\<in>set l. \<not> is_linebreak c \<Longrightarrow>
     split_from False cur l = (if cur @ l = [] then [] else [cur @ l])"
  by (induction l arbitrary: cur) auto

lemma split_plain_lf:
  "\<forall>c\<in>set l. \<not> is_linebreak c \<Longrightarrow>
     split_from False cur (l @ 10 # r) = (cur @ l) # split_from False [] r"
  by (induction l arbitrary: cur) (auto simp: is_linebreak_def)

lemma splitlines_join: "plain_lines ls \<Longrightarrow> splitlines (join nl ls) = ls"
proof (induction nl ls rule: join.induct)
  case 1
  then show ?case by (simp add: splitlines_def)
next
  case (2 x)
  then show ?case by (simp add: splitlines_def plain_lines_def split_plain)
next
  case (3 x y ys)
  then show ?case by (simp add: splitlines_def plain_lines_def split_plain_lf nl_def)
qed

lemma splitlines_ten_lines: "splitlines (join nl ten_lines) = ten_lines"
  by (simp add: ten_lines_def splitlines_def py_def nl_def is_linebreak_def)

lemma sorted_wrt_conj:
  "sorted_wrt P xs \<Longrightarrow> sorted_wrt Q xs \<Longrightarrow> sorted_wrt (\<lambda>a b. P a b \<and> Q a b) xs"
  by (induction xs) auto

lemma sort_start_le: "sort_start d \<le> first_line d"
  by (simp add: sort_start_def first_line_def start0_def split: option.splits)

lemma sort_start_eq: "2 \<le> first_line d \<Longrightarrow> sort_start d = first_line d"
  by (simp add: sort_start_def first_line_def start0_def split: option.splits)

text \<open>
  Valid, pairwise disjoint ranges in ascending order have strictly ascending sort keys,
  also where an entry leaves \<^verbatim>\<open>start_line\<close> out (key 0, first line 1).
\<close>

lemma strict_keys:
  assumes v: "\<forall>d\<in>set diffs. valid_range n d"
    and p: "pairwise_disjoint diffs" and a: "ascending_starts diffs"
  shows "sorted_wrt (\<lambda>a b. sort_start a < sort_start b) diffs"
proof -
  have "sorted_wrt (\<lambda>a b. first_line a \<le> first_line b) diffs"
    using a by (simp add: ascending_starts_def sorted_map)
  then have c: "sorted_wrt (\<lambda>a b. disjoint_ranges a b \<and> first_line a \<le> first_line b) diffs"
    using p unfolding pairwise_disjoint_def by (rule sorted_wrt_conj[rotated])
  have "sorted_wrt (\<lambda>a b. a \<in> set diffs \<and> b \<in> set diffs
          \<and> disjoint_ranges a b \<and> first_line a \<le> first_line b) diffs"
    using c by (simp add: sorted_wrt_iff_nth_less)
  then show ?thesis
  proof (rule sorted_wrt_mono_rel[rotated])
    fix x y
    assume "x \<in> set diffs" "y \<in> set diffs"
      and h: "x \<in> set diffs \<and> y \<in> set diffs
              \<and> disjoint_ranges x y \<and> first_line x \<le> first_line y"
    then have vx: "valid_range n x" and vy: "valid_range n y"
      using v by auto
    from h vx vy have lt: "first_line x < first_line y"
      by (auto simp: disjoint_ranges_def valid_range_def)
    with vx have "2 \<le> first_line y"
      by (simp add: valid_range_def)
    then have "sort_start y = first_line y"
      by (rule sort_start_eq)
    with lt sort_start_le[of x] show "sort_start x < sort_start y"
      by simp
  qed
qed

lemma skipped_invalid: "skipped_range (length ls) d \<Longrightarrow> range_invalid ls d"
  by (auto simp: skipped_range_def range_invalid_def first_line_def last_line_def)

lemma split_from_plain:
  "\<forall>c\<in>set cur. \<not> is_linebreak c \<Longrightarrow>
   \<forall>l\<in>set (split_from cr cur s). \<forall>c\<in>set l. \<not> is_linebreak c"
proof (induction s arbitrary: cr cur)
  case Nil
  then show ?case by simp
next
  case (Cons a s)
  show ?case
  proof (cases "cr \<and> a = 10")
    case True
    with Cons.IH[OF Cons.prems, of False] show ?thesis by simp
  next
    case False
    note f = False
    show ?thesis
    proof (cases "is_linebreak a")
      case True
      have "\<forall>l\<in>set (split_from (a = 13) [] s). \<forall>c\<in>set l. \<not> is_linebreak c"
        by (rule Cons.IH) simp
      with f True Cons.prems show ?thesis by auto
    next
      case False
      have "\<forall>l\<in>set (split_from False (cur @ [a]) s). \<forall>c\<in>set l. \<not> is_linebreak c"
        by (rule Cons.IH) (use False Cons.prems in auto)
      with f False show ?thesis by auto
    qed
  qed
qed

lemma splitlines_plain: "\<forall>l\<in>set (splitlines s). \<forall>c\<in>set l. \<not> is_linebreak c"
  unfolding splitlines_def by (rule split_from_plain) simp

lemma single_call: "apply_line_diffs (Some c) [d] = join nl (apply_diff (splitlines c) d)"
  by (simp add: apply_line_diffs_def sorted_reverse_def)

lemma separated:
  assumes v: "\<forall>d\<in>set diffs. valid_range n d"
    and p: "pairwise_disjoint diffs" and a: "ascending_starts diffs"
  shows "sorted_wrt (\<lambda>a b. last_line a < first_line b) diffs"
proof -
  have "sorted_wrt (\<lambda>a b. first_line a \<le> first_line b) diffs"
    using a by (simp add: ascending_starts_def sorted_map)
  then have c: "sorted_wrt (\<lambda>a b. disjoint_ranges a b \<and> first_line a \<le> first_line b) diffs"
    using p unfolding pairwise_disjoint_def by (rule sorted_wrt_conj[rotated])
  have "sorted_wrt (\<lambda>a b. a \<in> set diffs \<and> b \<in> set diffs
          \<and> disjoint_ranges a b \<and> first_line a \<le> first_line b) diffs"
    using c by (simp add: sorted_wrt_iff_nth_less)
  then show ?thesis
  proof (rule sorted_wrt_mono_rel[rotated])
    fix x y
    assume "x \<in> set diffs" "y \<in> set diffs"
      and h: "x \<in> set diffs \<and> y \<in> set diffs
              \<and> disjoint_ranges x y \<and> first_line x \<le> first_line y"
    then have "valid_range n x" "valid_range n y" using v by auto
    with h show "last_line x < first_line y"
      by (auto simp: disjoint_ranges_def valid_range_def)
  qed
qed

lemma apply_diff_inside:
  assumes pl: "plain_lines L" and ne: "L \<noteq> []"
    and r: "1 \<le> first_line d" "first_line d \<le> last_line d" "last_line d < int (length L)"
  shows "plain_lines (apply_diff L d) \<and> apply_diff L d \<noteq> []
         \<and> first_line d \<le> int (length (apply_diff L d))"
proof -
  have ni: "\<not> range_invalid L d"
    using r by (simp add: range_invalid_def first_line_def last_line_def)
  then have eq: "apply_diff L d
      = take (nat (start0 d)) L @ new_content_lines d @ drop (nat (end0 d)) L"
    by (simp add: apply_diff_def)
  have dn: "drop (nat (end0 d)) L \<noteq> []"
    using r by (simp add: last_line_def)
  have la: "last (apply_diff L d) = last L"
    using dn by (simp add: eq)
  have ch: "\<forall>l\<in>set (apply_diff L d). \<forall>c\<in>set l. \<not> is_linebreak c"
  proof
    fix l assume "l \<in> set (apply_diff L d)"
    then have "l \<in> set L \<or> l \<in> set (new_content_lines d)"
      unfolding eq by (auto dest: in_set_takeD in_set_dropD)
    then show "\<forall>c\<in>set l. \<not> is_linebreak c"
      using pl splitlines_plain by (auto simp: plain_lines_def new_content_lines_def)
  qed
  have 1: "plain_lines (apply_diff L d)"
    using ch la pl ne by (simp add: plain_lines_def)
  have 2: "apply_diff L d \<noteq> []" using dn by (simp add: eq)
  have 3: "first_line d \<le> int (length (apply_diff L d))"
    using r by (simp add: eq first_line_def last_line_def)
  from 1 2 3 show ?thesis by blast
qed

lemma calls_agree:
  assumes "plain_lines L" and "L \<noteq> []" and "b \<le> int (length L)"
    and "\<forall>d\<in>set ds. 1 \<le> first_line d \<and> first_line d \<le> last_line d \<and> last_line d < b"
    and "sorted_wrt (\<lambda>x y. last_line y < first_line x) ds"
  shows "one_call_each (join nl L) ds = join nl (foldl apply_diff L ds)"
  using assms
proof (induction ds arbitrary: L b)
  case Nil
  then show ?case by (simp add: one_call_each_def)
next
  case (Cons d ds)
  have r: "1 \<le> first_line d" "first_line d \<le> last_line d" "last_line d < int (length L)"
    using Cons.prems(3,4) by auto
  from apply_diff_inside[OF Cons.prems(1,2) r]
  have pl: "plain_lines (apply_diff L d)" and ne: "apply_diff L d \<noteq> []"
    and b: "first_line d \<le> int (length (apply_diff L d))" by blast+
  have below: "\<forall>x\<in>set ds. 1 \<le> first_line x \<and> first_line x \<le> last_line x
                 \<and> last_line x < first_line d"
    using Cons.prems(4,5) by auto
  have so: "sorted_wrt (\<lambda>x y. last_line y < first_line x) ds"
    using Cons.prems(5) by simp
  have "one_call_each (join nl L) (d # ds)
        = one_call_each (join nl (apply_diff (splitlines (join nl L)) d)) ds"
    by (simp add: one_call_each_def single_call)
  also have "\<dots> = one_call_each (join nl (apply_diff L d)) ds"
    using Cons.prems(1) by (simp add: splitlines_join)
  also have "\<dots> = join nl (foldl apply_diff (apply_diff L d) ds)"
    using pl ne b below so by (rule Cons.IH)
  finally show ?case by simp
qed

lemma first_call:
  assumes v: "valid_range (length L) d" and k: "keeps_last_line L [d]"
    and ch: "\<forall>l\<in>set L. \<forall>c\<in>set l. \<not> is_linebreak c"
  shows "apply_diff L d = [] \<or> (plain_lines (apply_diff L d) \<and> apply_diff L d \<noteq> []
         \<and> first_line d \<le> int (length (apply_diff L d)))"
proof -
  have r: "1 \<le> first_line d" "first_line d \<le> last_line d" "last_line d \<le> int (length L)"
    using v by (simp_all add: valid_range_def)
  then have ne: "L \<noteq> []" by auto
  have ni: "\<not> range_invalid L d"
    using r by (simp add: range_invalid_def first_line_def last_line_def)
  then have eq: "apply_diff L d
      = take (nat (start0 d)) L @ new_content_lines d @ drop (nat (end0 d)) L"
    by (simp add: apply_diff_def)
  have chs: "\<forall>l\<in>set (apply_diff L d). \<forall>c\<in>set l. \<not> is_linebreak c"
  proof
    fix l assume "l \<in> set (apply_diff L d)"
    then have "l \<in> set L \<or> l \<in> set (new_content_lines d)"
      unfolding eq by (auto dest: in_set_takeD in_set_dropD)
    then show "\<forall>c\<in>set l. \<not> is_linebreak c"
      using ch splitlines_plain by (auto simp: new_content_lines_def)
  qed
  show ?thesis
  proof (cases "last_line d = int (length L)")
    case True
    with k have n: "new_content_lines d \<noteq> []" "last (new_content_lines d) \<noteq> []"
      by (simp_all add: keeps_last_line_def)
    from True have dr: "drop (nat (end0 d)) L = []" by (simp add: last_line_def)
    have la: "last (apply_diff L d) = last (new_content_lines d)"
      using n dr by (simp add: eq)
    have 1: "plain_lines (apply_diff L d)"
      using chs la n by (simp add: plain_lines_def)
    have 2: "apply_diff L d \<noteq> []" using n by (simp add: eq)
    have 3: "first_line d \<le> int (length (apply_diff L d))"
      using r n by (cases "new_content_lines d") (simp_all add: eq first_line_def last_line_def)
    from 1 2 3 show ?thesis by blast
  next
    case False
    with r have lt: "last_line d < int (length L)" by simp
    have pl: "plain_lines L" using ch k ne by (simp add: plain_lines_def keeps_last_line_def)
    from apply_diff_inside[OF pl ne r(1,2) lt] show ?thesis by blast
  qed
qed

text \<open>
  C6, as the code has it. For every existing file that does not end with an empty line
  and every list of at least one line-range edit whose ranges are valid for the file,
  pairwise disjoint and given in ascending start-line order, in which an edit that ends
  at the last line of the file has a new content with at least one line whose last line
  is not empty, the content that \<^verbatim>\<open>_apply_line_diffs\<close> writes for the list is the content
  of the file after the edits have been applied to it one at a time, each by a call of
  its own, in descending start-line order (the reversed list).
\<close>

theorem line_diffs_descending:
  assumes v: "\<forall>d\<in>set diffs. valid_range (length (splitlines content)) d"
    and p: "pairwise_disjoint diffs" and a: "ascending_starts diffs"
    and n: "diffs \<noteq> []" and k: "keeps_last_line (splitlines content) diffs"
  shows "apply_line_diffs (Some content) diffs = one_call_each content (rev diffs)"
proof -
  let ?L = "splitlines content"
  obtain dm ds where rv: "rev diffs = dm # ds"
    using n by (cases "rev diffs") auto
  have mem: "set diffs = insert dm (set ds)"
    using rv by (metis list.simps(15) set_rev)
  have lhs: "apply_line_diffs (Some content) diffs = join nl (foldl apply_diff ?L (rev diffs))"
    using strict_keys[OF v p a]
    by (simp add: apply_line_diffs_def sorted_reverse_def sort_key_rev)
  have sep: "sorted_wrt (\<lambda>x y. last_line y < first_line x) (rev diffs)"
    using separated[OF v p a] by (simp add: sorted_wrt_rev)
  then have sepd: "\<forall>x\<in>set ds. last_line x < first_line dm"
    and seps: "sorted_wrt (\<lambda>x y. last_line y < first_line x) ds"
    by (simp_all add: rv)
  have vm: "valid_range (length ?L) dm" using v mem by simp
  have km: "keeps_last_line ?L [dm]"
    using k mem by (simp add: keeps_last_line_def)
  have below: "\<forall>x\<in>set ds. 1 \<le> first_line x \<and> first_line x \<le> last_line x
                 \<and> last_line x < first_line dm"
    using v mem sepd by (simp add: valid_range_def)
  have step: "one_call_each content (rev diffs)
              = one_call_each (join nl (apply_diff ?L dm)) ds"
    by (simp add: rv one_call_each_def single_call)
  have "one_call_each (join nl (apply_diff ?L dm)) ds
        = join nl (foldl apply_diff (apply_diff ?L dm) ds)"
  proof (cases "apply_diff ?L dm = []")
    case True
    have "ds = []"
    proof (rule ccontr)
      assume "ds \<noteq> []"
      then obtain x where x: "x \<in> set ds" by (cases ds) auto
      with below have "1 < first_line dm" by force
      moreover have "\<not> range_invalid ?L dm"
        using vm by (simp add: valid_range_def range_invalid_def first_line_def last_line_def)
      ultimately have "take (nat (start0 dm)) ?L \<noteq> []"
        using vm by (auto simp add: valid_range_def first_line_def last_line_def)
      with True \<open>\<not> range_invalid ?L dm\<close> show False by (simp add: apply_diff_def)
    qed
    then show ?thesis by (simp add: one_call_each_def)
  next
    case False
    with first_call[OF vm km splitlines_plain]
    have "plain_lines (apply_diff ?L dm)" "apply_diff ?L dm \<noteq> []"
      "first_line dm \<le> int (length (apply_diff ?L dm))" by blast+
    then show ?thesis using below seps by (rule calls_agree)
  qed
  with step lhs show ?thesis by (simp add: rv)
qed

text \<open>
  The example of the specification: a 10-line file, the edits of lines 2 to 4 and of
  lines 6 to 7 given in ascending order. The hypotheses hold, and the one call writes
  what the edit of lines 6 to 7 followed by the edit of lines 2 to 4 write.
\<close>

theorem line_diffs_descending_witness:
  "valid_range (length (splitlines (join nl ten_lines)))
       \<lparr>start_line = Some 2, end_line = Some 4, new_content = Some (py ''X'')\<rparr>
   \<and> valid_range (length (splitlines (join nl ten_lines)))
       \<lparr>start_line = Some 6, end_line = Some 7, new_content = Some (py ''Y'')\<rparr>
   \<and> pairwise_disjoint
       [\<lparr>start_line = Some 2, end_line = Some 4, new_content = Some (py ''X'')\<rparr>,
        \<lparr>start_line = Some 6, end_line = Some 7, new_content = Some (py ''Y'')\<rparr>]
   \<and> ascending_starts
       [\<lparr>start_line = Some 2, end_line = Some 4, new_content = Some (py ''X'')\<rparr>,
        \<lparr>start_line = Some 6, end_line = Some 7, new_content = Some (py ''Y'')\<rparr>]
   \<and> keeps_last_line (splitlines (join nl ten_lines))
       [\<lparr>start_line = Some 2, end_line = Some 4, new_content = Some (py ''X'')\<rparr>,
        \<lparr>start_line = Some 6, end_line = Some 7, new_content = Some (py ''Y'')\<rparr>]
   \<and> apply_line_diffs (Some (join nl ten_lines))
       [\<lparr>start_line = Some 2, end_line = Some 4, new_content = Some (py ''X'')\<rparr>,
        \<lparr>start_line = Some 6, end_line = Some 7, new_content = Some (py ''Y'')\<rparr>]
     = one_call_each (join nl ten_lines)
       [\<lparr>start_line = Some 6, end_line = Some 7, new_content = Some (py ''Y'')\<rparr>,
        \<lparr>start_line = Some 2, end_line = Some 4, new_content = Some (py ''X'')\<rparr>]
   \<and> apply_line_diffs (Some (join nl ten_lines))
       [\<lparr>start_line = Some 2, end_line = Some 4, new_content = Some (py ''X'')\<rparr>,
        \<lparr>start_line = Some 6, end_line = Some 7, new_content = Some (py ''Y'')\<rparr>]
     = join nl [py ''l1'', py ''X'', py ''l5'', py ''Y'', py ''l8'', py ''l9'', py ''l10'']"
proof -
  let ?a = "\<lparr>start_line = Some 2, end_line = Some 4, new_content = Some (py ''X'')\<rparr>"
  let ?b = "\<lparr>start_line = Some 6, end_line = Some 7, new_content = Some (py ''Y'')\<rparr>"
  have l: "length ten_lines = 10"
    by (simp add: ten_lines_def)
  have la: "last ten_lines \<noteq> []" "ten_lines \<noteq> []"
    by (simp_all add: ten_lines_def py_def)
  have va: "valid_range (length (splitlines (join nl ten_lines))) ?a"
    and vb: "valid_range (length (splitlines (join nl ten_lines))) ?b"
    by (simp_all add: splitlines_ten_lines l valid_range_def first_line_def last_line_def
        start0_def end0_def)
  have p: "pairwise_disjoint [?a, ?b]" and a: "ascending_starts [?a, ?b]"
    by (simp_all add: pairwise_disjoint_def ascending_starts_def disjoint_ranges_def
        first_line_def last_line_def start0_def end0_def)
  have k: "keeps_last_line (splitlines (join nl ten_lines)) [?a, ?b]"
    using la by (simp add: splitlines_ten_lines l keeps_last_line_def last_line_def end0_def)
  have r: "apply_line_diffs (Some (join nl ten_lines)) [?a, ?b]
     = join nl [py ''l1'', py ''X'', py ''l5'', py ''Y'', py ''l8'', py ''l9'', py ''l10'']"
    unfolding apply_line_diffs_def option.case splitlines_ten_lines
    by (simp add: sorted_reverse_def sort_start_def
        apply_diff_def range_invalid_def start0_def end0_def new_content_lines_def
        ten_lines_def splitlines_def py_def is_linebreak_def)
  have v: "\<forall>d\<in>set [?a, ?b]. valid_range (length (splitlines (join nl ten_lines))) d"
    using va vb by simp
  from line_diffs_descending[OF v p a _ k]
  have "apply_line_diffs (Some (join nl ten_lines)) [?a, ?b]
        = one_call_each (join nl ten_lines) [?b, ?a]"
    by simp
  with va vb p a k r show ?thesis by blast
qed

text \<open>
  Against C6 as the specification words it: a file of three lines, the last one empty,
  and the edits of line 1 and of line 2, which are valid, disjoint and ascending. The
  one call keeps the empty last line and writes a line feed at the end. Applied one at
  a time, the edit of line 2 writes that line feed too, but the call for line 1 then
  reads two lines only, and the content written has no line feed at its end.
\<close>

theorem line_diffs_descending_counterexample:
  "splitlines (py ''a'' @ nl @ py ''b'' @ nl @ nl) = [py ''a'', py ''b'', []]
   \<and> valid_range (length (splitlines (py ''a'' @ nl @ py ''b'' @ nl @ nl)))
       \<lparr>start_line = Some 1, end_line = Some 1, new_content = Some (py ''X'')\<rparr>
   \<and> valid_range (length (splitlines (py ''a'' @ nl @ py ''b'' @ nl @ nl)))
       \<lparr>start_line = Some 2, end_line = Some 2, new_content = Some (py ''Y'')\<rparr>
   \<and> pairwise_disjoint
       [\<lparr>start_line = Some 1, end_line = Some 1, new_content = Some (py ''X'')\<rparr>,
        \<lparr>start_line = Some 2, end_line = Some 2, new_content = Some (py ''Y'')\<rparr>]
   \<and> ascending_starts
       [\<lparr>start_line = Some 1, end_line = Some 1, new_content = Some (py ''X'')\<rparr>,
        \<lparr>start_line = Some 2, end_line = Some 2, new_content = Some (py ''Y'')\<rparr>]
   \<and> apply_line_diffs (Some (py ''a'' @ nl @ py ''b'' @ nl @ nl))
       [\<lparr>start_line = Some 1, end_line = Some 1, new_content = Some (py ''X'')\<rparr>,
        \<lparr>start_line = Some 2, end_line = Some 2, new_content = Some (py ''Y'')\<rparr>]
     = py ''X'' @ nl @ py ''Y'' @ nl
   \<and> apply_line_diffs (Some (py ''a'' @ nl @ py ''b'' @ nl @ nl))
       [\<lparr>start_line = Some 2, end_line = Some 2, new_content = Some (py ''Y'')\<rparr>]
     = py ''a'' @ nl @ py ''Y'' @ nl
   \<and> apply_line_diffs (Some (py ''a'' @ nl @ py ''Y'' @ nl))
       [\<lparr>start_line = Some 1, end_line = Some 1, new_content = Some (py ''X'')\<rparr>]
     = py ''X'' @ nl @ py ''Y''
   \<and> one_call_each (py ''a'' @ nl @ py ''b'' @ nl @ nl)
       [\<lparr>start_line = Some 2, end_line = Some 2, new_content = Some (py ''Y'')\<rparr>,
        \<lparr>start_line = Some 1, end_line = Some 1, new_content = Some (py ''X'')\<rparr>]
     = py ''X'' @ nl @ py ''Y''
   \<and> apply_line_diffs (Some (py ''a'' @ nl @ py ''b'' @ nl @ nl))
       [\<lparr>start_line = Some 1, end_line = Some 1, new_content = Some (py ''X'')\<rparr>,
        \<lparr>start_line = Some 2, end_line = Some 2, new_content = Some (py ''Y'')\<rparr>]
     \<noteq> one_call_each (py ''a'' @ nl @ py ''b'' @ nl @ nl)
       [\<lparr>start_line = Some 2, end_line = Some 2, new_content = Some (py ''Y'')\<rparr>,
        \<lparr>start_line = Some 1, end_line = Some 1, new_content = Some (py ''X'')\<rparr>]"
  by (simp add: one_call_each_def apply_line_diffs_def sorted_reverse_def sort_start_def
      apply_diff_def range_invalid_def start0_def end0_def new_content_lines_def
      valid_range_def pairwise_disjoint_def ascending_starts_def disjoint_ranges_def
      first_line_def last_line_def splitlines_def py_def nl_def is_linebreak_def)

lemma skipped_iff_invalid: "skipped_range (length ls) d \<longleftrightarrow> range_invalid ls d"
  by (auto simp: skipped_range_def range_invalid_def first_line_def last_line_def)

text \<open>
  C7, as the code has it. Each edit is checked against the list of lines as the edits
  applied before it (those of greater start line) have left it, not against the file:
  it is skipped, with the lines unchanged and no error, when its first line is below 1
  or beyond the number of lines of that list, when its last line is beyond that number,
  or when its last line is before its first line; every other edit is applied, also the
  one whose first and last line are equal, which replaces that one line. A list of edits
  that are all skipped with respect to the file's own number of lines leaves the lines
  as they are: the file is written back as its lines joined by a line feed, which is
  the content it had whenever that content is a sequence of lines separated by line
  feeds with no line boundary at its end.
\<close>

theorem line_diffs_skip:
  assumes "\<forall>d\<in>set diffs. skipped_range (length (splitlines content)) d"
  shows "(skipped_range (length ls) d \<longrightarrow> apply_diff ls d = ls)
       \<and> (\<not> skipped_range (length ls) d \<longrightarrow>
            apply_diff ls d = take (nat (first_line d - 1)) ls @ new_content_lines d
                               @ drop (nat (last_line d)) ls)
       \<and> apply_line_diffs (Some content) diffs = join nl (splitlines content)
       \<and> (\<forall>ls'. plain_lines ls' \<and> content = join nl ls' \<longrightarrow>
            apply_line_diffs (Some content) diffs = content)"
proof -
  have 1: "skipped_range (length ls) d \<longrightarrow> apply_diff ls d = ls"
    by (simp add: skipped_iff_invalid apply_diff_def)
  have 2: "\<not> skipped_range (length ls) d \<longrightarrow>
            apply_diff ls d = take (nat (first_line d - 1)) ls @ new_content_lines d
                               @ drop (nat (last_line d)) ls"
    by (simp add: skipped_iff_invalid apply_diff_def first_line_def last_line_def)
  have "\<forall>d\<in>set (sorted_reverse diffs). range_invalid (splitlines content) d"
    using assms by (simp add: sorted_reverse_def skipped_invalid)
  then have "foldl apply_diff (splitlines content) (sorted_reverse diffs) = splitlines content"
    by (rule foldl_skip)
  then have 3: "apply_line_diffs (Some content) diffs = join nl (splitlines content)"
    by (simp add: apply_line_diffs_def)
  then have 4: "\<forall>ls'. plain_lines ls' \<and> content = join nl ls' \<longrightarrow>
            apply_line_diffs (Some content) diffs = content"
    by (auto simp: splitlines_join)
  from 1 2 3 4 show ?thesis by blast
qed

text \<open>
  The example of the specification, \<^verbatim>\<open>start_line=20\<close> on a 10-line file, and an edit of the
  lines 2 to 5 of a 3-line file: it is out of range for the file, but it comes after an
  edit that turns line 3 into three lines, finds five lines and is applied.
\<close>

theorem line_diffs_skip_witness:
  "skipped_range (length (splitlines (join nl ten_lines)))
       \<lparr>start_line = Some 20, end_line = Some 21, new_content = Some (py ''X'')\<rparr>
   \<and> plain_lines ten_lines
   \<and> apply_diff ten_lines
       \<lparr>start_line = Some 20, end_line = Some 21, new_content = Some (py ''X'')\<rparr> = ten_lines
   \<and> apply_line_diffs (Some (join nl ten_lines))
       [\<lparr>start_line = Some 20, end_line = Some 21, new_content = Some (py ''X'')\<rparr>]
     = join nl ten_lines
   \<and> skipped_range (length [py ''a'', py ''b'', py ''c''])
       \<lparr>start_line = Some 2, end_line = Some 5, new_content = Some (py ''Q'')\<rparr>
   \<and> \<not> skipped_range (length [py ''a'', py ''b'', py ''x'', py ''y'', py ''z''])
       \<lparr>start_line = Some 2, end_line = Some 5, new_content = Some (py ''Q'')\<rparr>
   \<and> apply_diff [py ''a'', py ''b'', py ''x'', py ''y'', py ''z'']
       \<lparr>start_line = Some 2, end_line = Some 5, new_content = Some (py ''Q'')\<rparr>
     = [py ''a'', py ''Q'']
   \<and> apply_line_diffs (Some (join nl [py ''a'', py ''b'', py ''c'']))
       [\<lparr>start_line = Some 2, end_line = Some 5, new_content = Some (py ''Q'')\<rparr>,
        \<lparr>start_line = Some 3, end_line = Some 3,
         new_content = Some (join nl [py ''x'', py ''y'', py ''z''])\<rparr>]
     = join nl [py ''a'', py ''Q'']"
proof -
  let ?d = "\<lparr>start_line = Some 20, end_line = Some 21, new_content = Some (py ''X'')\<rparr>"
  let ?q = "\<lparr>start_line = Some 2, end_line = Some 5, new_content = Some (py ''Q'')\<rparr>"
  have l: "length ten_lines = 10"
    by (simp add: ten_lines_def)
  have h: "skipped_range (length (splitlines (join nl ten_lines))) ?d"
    by (simp add: splitlines_ten_lines l skipped_range_def first_line_def last_line_def
        start0_def end0_def)
  have h': "skipped_range (length ten_lines) ?d"
    by (simp add: l skipped_range_def first_line_def last_line_def start0_def end0_def)
  have p: "plain_lines ten_lines"
    by (simp add: plain_lines_def ten_lines_def py_def is_linebreak_def)
  have s3: "skipped_range (length [py ''a'', py ''b'', py ''c'']) ?q"
    by (simp add: skipped_range_def first_line_def last_line_def start0_def end0_def)
  have s5: "\<not> skipped_range (length [py ''a'', py ''b'', py ''x'', py ''y'', py ''z'']) ?q"
    by (simp add: skipped_range_def first_line_def last_line_def start0_def end0_def)
  have q: "new_content_lines ?q = [py ''Q'']"
    by (simp add: new_content_lines_def splitlines_def py_def is_linebreak_def)
  have fl: "first_line ?q = 2" "last_line ?q = 5"
    by (simp_all add: first_line_def last_line_def start0_def end0_def)
  have run: "apply_line_diffs (Some (join nl [py ''a'', py ''b'', py ''c'']))
       [?q, \<lparr>start_line = Some 3, end_line = Some 3,
         new_content = Some (join nl [py ''x'', py ''y'', py ''z''])\<rparr>]
     = join nl [py ''a'', py ''Q'']"
    by (simp add: apply_line_diffs_def sorted_reverse_def apply_diff_def range_invalid_def
        start0_def end0_def new_content_lines_def splitlines_def py_def nl_def
        is_linebreak_def sort_start_def)
  from h have a: "\<forall>d\<in>set [?d]. skipped_range (length (splitlines (join nl ten_lines))) d"
    by simp
  from line_diffs_skip[OF a, of ten_lines ?d] h' p
  have t1: "apply_diff ten_lines ?d = ten_lines"
    and t2: "apply_line_diffs (Some (join nl ten_lines)) [?d] = join nl ten_lines"
    by blast+
  from line_diffs_skip[OF a, of "[py ''a'', py ''b'', py ''x'', py ''y'', py ''z'']" ?q] s5
  have t3: "apply_diff [py ''a'', py ''b'', py ''x'', py ''y'', py ''z''] ?q = [py ''a'', py ''Q'']"
    by (simp add: q fl)
  from h p t1 t2 s3 s5 t3 run show ?thesis by blast
qed

text \<open>
  Against C7 as the specification words it: an edit with \<^verbatim>\<open>start_line = end_line = 2\<close>
  (so start \<open>\<ge>\<close> end) on a 3-line file is applied, not skipped; and an out-of-range
  edit on a file that ends with a line feed changes the content (the final line feed is
  lost).
\<close>

theorem line_diffs_skip_counterexample:
  "(2::int) \<ge> 2
   \<and> apply_line_diffs (Some (join nl [py ''a'', py ''b'', py ''c'']))
       [\<lparr>start_line = Some 2, end_line = Some 2, new_content = Some (py ''X'')\<rparr>]
     = join nl [py ''a'', py ''X'', py ''c'']
   \<and> apply_line_diffs (Some (join nl [py ''a'', py ''b'', py ''c'']))
       [\<lparr>start_line = Some 2, end_line = Some 2, new_content = Some (py ''X'')\<rparr>]
     \<noteq> join nl [py ''a'', py ''b'', py ''c'']
   \<and> length (splitlines (py ''a'' @ nl)) < 20
   \<and> apply_line_diffs (Some (py ''a'' @ nl))
       [\<lparr>start_line = Some 20, end_line = Some 21, new_content = Some (py ''X'')\<rparr>]
     \<noteq> py ''a'' @ nl"
  by (simp add: apply_line_diffs_def sorted_reverse_def apply_diff_def range_invalid_def
      start0_def end0_def new_content_lines_def splitlines_def py_def nl_def
      is_linebreak_def)

section \<open>Properties of the dependency manifest\<close>

text \<open>
  C9 fails on the code. The manifest with the two lines \<^verbatim>\<open>requests==2.31.0\<close> and
  \<^verbatim>\<open>flask\<close> declares two third-party packages, and \<^verbatim>\<open>requests\<close> is not in the list of
  standard modules; yet the line is removed, because the test is "starts with the name
  of a standard module" and \<^verbatim>\<open>requests\<close> starts with \<^verbatim>\<open>re\<close>.
\<close>

theorem sanitize_removes_requests:
  "py ''requests'' \<notin> set STANDARD_LIBS
   \<and> sanitize_dependency_file (py ''requests==2.31.0'' @ nl @ py ''flask'' @ nl)
     = py ''flask'' @ nl"
  by (simp add: sanitize_dependency_file_def keep_line_def STANDARD_LIBS_def startswith_def
      lower_def strip_def is_space_def splitlines_def is_linebreak_def py_def nl_def Let_def)

section \<open>Properties of the two build modes\<close>

text \<open>
  C8. The full-replace build is idempotent: when building a file list into a target
  directory (absent, empty or holding any tree) ends with a tree, building the same
  list into that target again ends the same way with the same tree. File lists with a
  path that leaves the target directory are outside the model.
\<close>

theorem build_idempotent:
  "build_project_structure loads files base_path = Built ok t \<Longrightarrow>
   build_project_structure loads files (Some t) = Built ok t"
  by (cases base_path) (simp_all add: build_project_structure_def rmtree_def)

text \<open>
  A build into a target that holds an old file: the old file is gone, and a second build
  gives the same tree.
\<close>

theorem build_idempotent_witness:
  "build_project_structure loads_example
     [\<lparr>fi_path = Some (py ''app/main.py''), fi_content = Some (py ''x = 1'')\<rparr>]
     (Some [[py ''old.txt''] \<mapsto> File (py ''old'')])
   = Built True [[py ''app''] \<mapsto> Dir, [py ''app'', py ''main.py''] \<mapsto> File (py ''x = 1'')]
   \<and> build_project_structure loads_example
     [\<lparr>fi_path = Some (py ''app/main.py''), fi_content = Some (py ''x = 1'')\<rparr>]
     (Some [[py ''app''] \<mapsto> Dir, [py ''app'', py ''main.py''] \<mapsto> File (py ''x = 1'')])
   = Built True [[py ''app''] \<mapsto> Dir, [py ''app'', py ''main.py''] \<mapsto> File (py ''x = 1'')]"
proof -
  have n: "path_name (py ''app/main.py'') \<noteq> py ''requirements.txt''"
    and ps: "path_parts (py ''app/main.py'') = [py ''app'', py ''main.py'']"
    by (simp_all add: path_name_def path_parts_def py_def)
  have c: "py ''app/main.py'' \<noteq> []" "\<not> is_absolute (py ''app/main.py'')"
    "py ''main.py'' \<noteq> dotdot" "py ''app'' \<noteq> dotdot"
    by (simp_all add: py_def is_absolute_def dotdot_def)
  have first: "build_project_structure loads_example
     [\<lparr>fi_path = Some (py ''app/main.py''), fi_content = Some (py ''x = 1'')\<rparr>]
     (Some [[py ''old.txt''] \<mapsto> File (py ''old'')])
   = Built True [[py ''app''] \<mapsto> Dir, [py ''app'', py ''main.py''] \<mapsto> File (py ''x = 1'')]"
    using c
    by (simp add: build_project_structure_def rmtree_def write_file_def ps
        sanitize_requirements_content_def n)
  from first build_idempotent[OF first] show ?thesis
    by simp
qed








text \<open>
  For contrast: a file whose base name is \<^verbatim>\<open>requirements.txt\<close>, in any directory, is
  unwrapped.
\<close>

lemma build_requirements_unwrapped:
  "build_project_structure loads_example
     [\<lparr>fi_path = Some (py ''app/requirements.txt''), fi_content = Some wrapped_manifest\<rparr>]
     None
   = Built True [[py ''app''] \<mapsto> Dir,
                 [py ''app'', py ''requirements.txt''] \<mapsto> File (py ''flask'')]"
proof -
  have n: "path_name (py ''app/requirements.txt'') = py ''requirements.txt''"
    and ps: "path_parts (py ''app/requirements.txt'') = [py ''app'', py ''requirements.txt'']"
    by (simp_all add: path_name_def path_parts_def py_def)
  have s: "sanitize_requirements_content loads_example (py ''app/requirements.txt'')
             wrapped_manifest = py ''flask''"
    by (simp add: sanitize_requirements_content_def n loads_example_def)
  have "py ''app/requirements.txt'' \<noteq> []" "\<not> is_absolute (py ''app/requirements.txt'')"
    "py ''requirements.txt'' \<noteq> dotdot" "py ''app'' \<noteq> dotdot"
    by (simp_all add: py_def is_absolute_def dotdot_def)
  then show ?thesis
    by (simp add: build_project_structure_def write_file_def ps s)
qed



section \<open>Properties of the dependency scheduler\<close>

lemmas run_eval = started_def schedule_def build_graph_def graph_def initial_state_def
  always_success_def always_aborted_def run_loop.simps py_def

lemma unlock_appends: "unlock ds in_deg q = Some (in_deg', q') \<Longrightarrow> \<exists>new. q' = q @ new"
proof (induction ds arbitrary: in_deg q)
  case Nil
  then show ?case by simp
next
  case (Cons d ds)
  then obtain v where v: "map_of in_deg d = Some v"
    by (auto split: option.splits)
  with Cons.prems
  have "unlock ds (AList.update d (v - 1) in_deg) (if v - 1 = 0 then q @ [d] else q)
        = Some (in_deg', q')"
    by simp
  from Cons.IH[OF this] show ?case
    by (auto split: if_splits)
qed

lemma fifo_stop: "fifo b (t # rest) b"
  unfolding fifo_def by (rule disjI2, rule exI[of _ 0]) simp

lemma fifo_stop1: "fifo b (t # rest) (b @ [t])"
  unfolding fifo_def by (rule disjI2, rule exI[of _ 1]) simp

lemma fifo_step: "fifo (b @ [t]) (rest @ new) a \<Longrightarrow> fifo b (t # rest) a"
  unfolding fifo_def
proof (elim disjE exE)
  fix more assume "a = (b @ [t]) @ (rest @ new) @ more"
  then have "a = b @ (t # rest) @ (new @ more)" by simp
  then show "(\<exists>more. a = b @ (t # rest) @ more) \<or> (\<exists>k. a = b @ take k (t # rest))" by blast
next
  fix k assume a: "a = (b @ [t]) @ take k (rest @ new)"
  show "(\<exists>more. a = b @ (t # rest) @ more) \<or> (\<exists>k. a = b @ take k (t # rest))"
  proof (cases "k \<le> length rest")
    case True
    with a have "a = b @ take (Suc k) (t # rest)" by simp
    then show ?thesis by blast
  next
    case False
    with a have "a = b @ (t # rest) @ take (k - length rest) new" by simp
    then show ?thesis by blast
  qed
qed

lemma unlock_spec:
  assumes "set ds \<subseteq> set (map fst deg)"
    and "\<forall>k v. map_of deg k = Some v \<longrightarrow> int (count_list ds k) \<le> v"
  shows "\<exists>deg' new. unlock ds deg q = Some (deg', q @ new) \<and> map fst deg' = map fst deg
       \<and> (\<forall>k v. map_of deg k = Some v \<longrightarrow> map_of deg' k = Some (v - int (count_list ds k)))
       \<and> distinct new \<and> set new = {k \<in> set ds. map_of deg k = Some (int (count_list ds k))}"
  using assms
proof (induction ds arbitrary: deg q)
  case Nil
  then show ?case by simp
next
  case (Cons d ds)
  from Cons.prems(1) have "d \<in> fst ` set deg" by simp
  then obtain v where v: "map_of deg d = Some v"
    by (metis map_of_eq_None_iff not_Some_eq)
  let ?deg1 = "AList.update d (v - 1) deg"
  let ?q1 = "if v - 1 = 0 then q @ [d] else q"
  from Cons.prems(2) v have vb: "int (count_list ds d) + 1 \<le> v" by fastforce
  have keys: "map fst ?deg1 = map fst deg"
    using \<open>d \<in> fst ` set deg\<close> by (simp add: update_keys)
  have m1: "map_of ?deg1 = (map_of deg)(d \<mapsto> v - 1)"
    by (simp add: update_conv')
  have p1: "set ds \<subseteq> set (map fst ?deg1)"
    using Cons.prems(1) keys by simp
  have p2: "\<forall>k v'. map_of ?deg1 k = Some v' \<longrightarrow> int (count_list ds k) \<le> v'"
  proof (intro allI impI)
    fix k v' assume a: "map_of ?deg1 k = Some v'"
    show "int (count_list ds k) \<le> v'"
    proof (cases "k = d")
      case True
      with a vb show ?thesis by (simp add: m1)
    next
      case False
      with a have "map_of deg k = Some v'" by (simp add: m1)
      with Cons.prems(2) have "int (count_list (d # ds) k) \<le> v'" by blast
      with False show ?thesis by simp
    qed
  qed
  from Cons.IH[OF p1 p2, of ?q1] obtain deg' new1 where
    u: "unlock ds ?deg1 ?q1 = Some (deg', ?q1 @ new1)"
    and k': "map fst deg' = map fst ?deg1"
    and m': "\<forall>k v'. map_of ?deg1 k = Some v' \<longrightarrow> map_of deg' k = Some (v' - int (count_list ds k))"
    and dn: "distinct new1"
    and sn: "set new1 = {k \<in> set ds. map_of ?deg1 k = Some (int (count_list ds k))}"
    by blast
  let ?new = "(if v - 1 = 0 then [d] else []) @ new1"
  have 1: "unlock (d # ds) deg q = Some (deg', q @ ?new)"
    using v u by simp
  have 2: "map fst deg' = map fst deg"
    using k' keys by simp
  have 3: "\<forall>k v'. map_of deg k = Some v' \<longrightarrow> map_of deg' k = Some (v' - int (count_list (d # ds) k))"
  proof (intro allI impI)
    fix k v' assume a: "map_of deg k = Some v'"
    show "map_of deg' k = Some (v' - int (count_list (d # ds) k))"
    proof (cases "k = d")
      case True
      with a v have "v' = v" by simp
      moreover have "map_of deg' d = Some (v - 1 - int (count_list ds d))"
        using m' by (simp add: m1)
      ultimately show ?thesis using True by simp
    next
      case False
      with a have "map_of ?deg1 k = Some v'" by (simp add: m1)
      with m' have "map_of deg' k = Some (v' - int (count_list ds k))" by blast
      with False show ?thesis by simp
    qed
  qed
  have dnot: "v - 1 = 0 \<Longrightarrow> d \<notin> set ds"
    using vb by (auto simp flip: count_list_0_iff)
  have 4: "distinct ?new"
    using dn sn dnot by auto
  have 5: "set ?new = {k \<in> set (d # ds). map_of deg k = Some (int (count_list (d # ds) k))}"
  proof (intro set_eqI iffI)
    fix k assume "k \<in> set ?new"
    then consider "v - 1 = 0" "k = d" | "k \<in> set new1" by (auto split: if_splits)
    then show "k \<in> {k \<in> set (d # ds). map_of deg k = Some (int (count_list (d # ds) k))}"
    proof cases
      case 1
      with dnot v show ?thesis by (simp flip: count_list_0_iff)
    next
      case 2
      with sn have kd: "k \<in> set ds" and mk: "map_of ?deg1 k = Some (int (count_list ds k))" by auto
      show ?thesis
      proof (cases "k = d")
        case True
        with mk have "v - 1 = int (count_list ds d)" by (simp add: m1)
        with True v kd show ?thesis by simp
      next
        case False
        with mk kd show ?thesis by (simp add: m1)
      qed
    qed
  next
    fix k assume "k \<in> {k \<in> set (d # ds). map_of deg k = Some (int (count_list (d # ds) k))}"
    then have km: "k = d \<or> k \<in> set ds" and mk: "map_of deg k = Some (int (count_list (d # ds) k))"
      by auto
    show "k \<in> set ?new"
    proof (cases "k = d")
      case True
      with mk v have veq: "v = int (count_list ds d) + 1" by simp
      show ?thesis
      proof (cases "d \<in> set ds")
        case True
        have "map_of ?deg1 d = Some (v - 1)" by (simp add: m1)
        then have "map_of ?deg1 d = Some (int (count_list ds d))" by (simp only: veq) simp
        with True sn \<open>k = d\<close> show ?thesis by simp
      next
        case False
        then have "count_list ds d = 0" by (simp add: count_list_0_iff)
        with veq \<open>k = d\<close> show ?thesis by simp
      qed
    next
      case False
      with km mk have "k \<in> set ds" "map_of ?deg1 k = Some (int (count_list ds k))"
        by (simp_all add: m1)
      with sn show ?thesis by simp
    qed
  qed
  from 1 2 3 4 5 show ?case by blast
qed

lemma count_le_filter: "P t \<Longrightarrow> count_list xs t \<le> length (filter P xs)"
  by (induction xs) auto

lemma filter_insert_count:
  "t \<notin> D \<Longrightarrow> int (length (filter (\<lambda>d. d \<notin> insert t D) xs))
     = int (length (filter (\<lambda>d. d \<notin> D) xs)) - int (count_list xs t)"
  by (induction xs) auto

lemma filter_eq_count_iff:
  "t \<notin> D \<Longrightarrow> length (filter (\<lambda>d. d \<notin> D) xs) = count_list xs t \<longleftrightarrow> set xs \<subseteq> insert t D"
proof (induction xs)
  case Nil
  then show ?case by simp
next
  case (Cons x xs)
  have le: "count_list xs t \<le> length (filter (\<lambda>d. d \<notin> D) xs)"
    using Cons.prems by (simp add: count_le_filter)
  show ?case
  proof (cases "x = t")
    case True
    with Cons show ?thesis by simp
  next
    case False
    with Cons le show ?thesis by (cases "x \<in> D") auto
  qed
qed

lemma add_dependents_ok:
  assumes "set ds \<subseteq> fst ` set adj"
  shows "\<exists>adj'. add_dependents s ds adj = Inr adj' \<and> map fst adj' = map fst adj
       \<and> (\<forall>d xs. map_of adj d = Some xs \<longrightarrow>
             map_of adj' d = Some (xs @ replicate (count_list ds d) s))"
  using assms
proof (induction ds arbitrary: adj)
  case Nil
  then show ?case by simp
next
  case (Cons d ds)
  from Cons.prems have dk: "d \<in> fst ` set adj" by simp
  then obtain xs0 where x0: "map_of adj d = Some xs0"
    by (metis map_of_eq_None_iff not_Some_eq)
  let ?adj1 = "AList.update d (xs0 @ [s]) adj"
  have keys: "map fst ?adj1 = map fst adj"
    using dk by (simp add: update_keys)
  have m1: "map_of ?adj1 = (map_of adj)(d \<mapsto> xs0 @ [s])"
    by (simp add: update_conv')
  from keys have "fst ` set ?adj1 = fst ` set adj"
    by (metis list.set_map)
  with Cons.prems have "set ds \<subseteq> fst ` set ?adj1" by simp
  from Cons.IH[OF this] obtain adj' where
    a: "add_dependents s ds ?adj1 = Inr adj'" and k: "map fst adj' = map fst ?adj1"
    and m: "\<forall>d' xs. map_of ?adj1 d' = Some xs \<longrightarrow>
             map_of adj' d' = Some (xs @ replicate (count_list ds d') s)"
    by blast
  have "\<forall>d' xs. map_of adj d' = Some xs \<longrightarrow>
          map_of adj' d' = Some (xs @ replicate (count_list (d # ds) d') s)"
  proof (intro allI impI)
    fix d' xs assume h: "map_of adj d' = Some xs"
    show "map_of adj' d' = Some (xs @ replicate (count_list (d # ds) d') s)"
    proof (cases "d' = d")
      case True
      with h x0 have "xs = xs0" by simp
      moreover have "map_of adj' d = Some ((xs0 @ [s]) @ replicate (count_list ds d) s)"
        using m by (simp add: m1)
      ultimately show ?thesis using True by (simp add: replicate_append_same)
    next
      case False
      with h have "map_of ?adj1 d' = Some xs" by (simp add: m1)
      with m False show ?thesis by simp
    qed
  qed
  with a k keys x0 show ?case by simp
qed

lemma dependents_of_Cons:
  "dependents_of ((s, t) # rest) d
   = replicate (count_list (dependencies t) d) s @ dependents_of rest d"
  by (simp add: dependents_of_def)

lemma build_graph_loop_ok:
  assumes "\<forall>(k, t)\<in>set rest. set (dependencies t) \<subseteq> fst ` set adj"
    and "fst ` set rest \<subseteq> fst ` set deg"
    and "distinct (map fst rest)"
  shows "\<exists>adj' deg'. build_graph_loop rest adj deg = Inr (adj', deg')
       \<and> map fst adj' = map fst adj \<and> map fst deg' = map fst deg
       \<and> (\<forall>d xs. map_of adj d = Some xs \<longrightarrow> map_of adj' d = Some (xs @ dependents_of rest d))
       \<and> (\<forall>k. map_of deg' k = (case map_of rest k of
                 Some t \<Rightarrow> Some (int (length (dependencies t))) | None \<Rightarrow> map_of deg k))"
  using assms
proof (induction rest arbitrary: adj deg)
  case Nil
  then show ?case by (simp add: dependents_of_def)
next
  case (Cons p rest)
  obtain s t where p: "p = (s, t)" by (cases p)
  from Cons.prems(1) p have "set (dependencies t) \<subseteq> fst ` set adj" by simp
  from add_dependents_ok[OF this, of s] obtain adj1 where
    a: "add_dependents s (dependencies t) adj = Inr adj1" and k1: "map fst adj1 = map fst adj"
    and m1: "\<forall>d xs. map_of adj d = Some xs \<longrightarrow>
               map_of adj1 d = Some (xs @ replicate (count_list (dependencies t) d) s)"
    by blast
  let ?deg1 = "AList.update s (int (length (dependencies t))) deg"
  from Cons.prems(2) p have sk: "s \<in> fst ` set deg" by simp
  have kd: "map fst ?deg1 = map fst deg"
    using sk by (simp add: update_keys)
  have md: "map_of ?deg1 = (map_of deg)(s \<mapsto> int (length (dependencies t)))"
    by (simp add: update_conv')
  have e1: "fst ` set adj1 = fst ` set adj" using k1 by (metis list.set_map)
  have e2: "fst ` set ?deg1 = fst ` set deg" using kd by (metis list.set_map)
  have p1: "\<forall>(k, t)\<in>set rest. set (dependencies t) \<subseteq> fst ` set adj1"
    using Cons.prems(1) e1 by auto
  have p2: "fst ` set rest \<subseteq> fst ` set ?deg1"
    using Cons.prems(2) e2 by auto
  have p3: "distinct (map fst rest)" using Cons.prems(3) by simp
  from Cons.IH[OF p1 p2 p3] obtain adj' deg' where
    b: "build_graph_loop rest adj1 ?deg1 = Inr (adj', deg')"
    and k2: "map fst adj' = map fst adj1" and k3: "map fst deg' = map fst ?deg1"
    and m2: "\<forall>d xs. map_of adj1 d = Some xs \<longrightarrow> map_of adj' d = Some (xs @ dependents_of rest d)"
    and m3: "\<forall>k. map_of deg' k = (case map_of rest k of
                 Some t \<Rightarrow> Some (int (length (dependencies t))) | None \<Rightarrow> map_of ?deg1 k)"
    by blast
  have r1: "build_graph_loop (p # rest) adj deg = Inr (adj', deg')"
    using a b p by simp
  have r4: "\<forall>d xs. map_of adj d = Some xs \<longrightarrow> map_of adj' d = Some (xs @ dependents_of (p # rest) d)"
    using m1 m2 p by (simp add: dependents_of_Cons)
  have snot: "map_of rest s = None"
    using Cons.prems(3) p by (simp add: map_of_eq_None_iff)
  have r5: "\<forall>k. map_of deg' k = (case map_of (p # rest) k of
                 Some t \<Rightarrow> Some (int (length (dependencies t))) | None \<Rightarrow> map_of deg k)"
  proof
    fix k
    show "map_of deg' k = (case map_of (p # rest) k of
                 Some t \<Rightarrow> Some (int (length (dependencies t))) | None \<Rightarrow> map_of deg k)"
      using m3[rule_format, of k] snot p
      by (cases "k = s") (simp_all add: md split: option.splits)
  qed
  from r1 k1 k2 k3 kd r4 r5 show ?case by auto
qed

lemma deps_of_in: "(k, t) \<in> set steps \<Longrightarrow> distinct (map fst steps) \<Longrightarrow> deps_of steps k = dependencies t"
  by (simp add: deps_of_def)

lemma build_graph_ok:
  assumes d: "distinct (map fst steps)" and n: "no_dangling steps"
  shows "\<exists>adj deg. build_graph steps = Inr (adj, deg)
       \<and> map fst deg = map fst steps
       \<and> (\<forall>k\<in>fst ` set steps. map_of adj k = Some (dependents_of steps k))
       \<and> (\<forall>k\<in>fst ` set steps. map_of deg k = Some (int (length (deps_of steps k))))"
proof -
  let ?adj0 = "map (\<lambda>(k, v). (k, [] :: int list)) steps"
  let ?deg0 = "map (\<lambda>(k, v). (k, 0 :: int)) steps"
  have ka: "fst ` set ?adj0 = fst ` set steps" and kd: "fst ` set ?deg0 = fst ` set steps"
    by force+
  have p1: "\<forall>(k, t)\<in>set steps. set (dependencies t) \<subseteq> fst ` set ?adj0"
  proof (clarify)
    fix k t x assume kt: "(k, t) \<in> set steps" and x: "x \<in> set (dependencies t)"
    from kt d have "deps_of steps k = dependencies t" by (rule deps_of_in)
    moreover from kt have "k \<in> fst ` set steps" by force
    ultimately have "x \<in> fst ` set steps"
      using n[unfolded no_dangling_def, rule_format, of k] x by auto
    then show "x \<in> fst ` set ?adj0" using ka by simp
  qed
  have p2: "fst ` set steps \<subseteq> fst ` set ?deg0" using kd by simp
  from build_graph_loop_ok[OF p1 p2 d] obtain adj deg where
    b: "build_graph_loop steps ?adj0 ?deg0 = Inr (adj, deg)"
    and k3: "map fst deg = map fst ?deg0"
    and m2: "\<forall>d xs. map_of ?adj0 d = Some xs \<longrightarrow> map_of adj d = Some (xs @ dependents_of steps d)"
    and m3: "\<forall>k. map_of deg k = (case map_of steps k of
                 Some t \<Rightarrow> Some (int (length (dependencies t))) | None \<Rightarrow> map_of ?deg0 k)"
    by blast
  have a0: "\<forall>k\<in>fst ` set steps. map_of ?adj0 k = Some []"
    by (induction steps) auto
  have r3: "\<forall>k\<in>fst ` set steps. map_of adj k = Some (dependents_of steps k)"
    using a0 m2 by fastforce
  have r4: "\<forall>k\<in>fst ` set steps. map_of deg k = Some (int (length (deps_of steps k)))"
  proof
    fix k assume "k \<in> fst ` set steps"
    then obtain t where "map_of steps k = Some t"
      by (metis map_of_eq_None_iff not_Some_eq)
    with m3[rule_format, of k] show "map_of deg k = Some (int (length (deps_of steps k)))"
      by (simp add: deps_of_def)
  qed
  have "map fst deg = map fst steps" using k3 by (simp add: case_prod_unfold comp_def)
  with b r3 r4 show ?thesis by (auto simp: build_graph_def)
qed

lemma set_dependents: "set (dependents_of steps d) \<subseteq> fst ` set steps"
  by (induction steps) (auto simp: dependents_of_def)

lemma count_list_replicate: "count_list (replicate n x) y = (if x = y then n else 0)"
  by (induction n) auto

lemma count_dependents:
  "distinct (map fst steps) \<Longrightarrow>
   count_list (dependents_of steps d) s = count_list (deps_of steps s) d"
proof (induction steps)
  case Nil
  then show ?case by (simp add: dependents_of_def deps_of_def)
next
  case (Cons p steps)
  obtain s0 t0 where p: "p = (s0, t0)" by (cases p)
  from Cons have ih: "count_list (dependents_of steps d) s = count_list (deps_of steps s) d"
    by simp
  show ?case
  proof (cases "s = s0")
    case True
    from Cons.prems p have "s0 \<notin> fst ` set steps" by simp
    then have "s0 \<notin> set (dependents_of steps d)" using set_dependents by blast
    then have "count_list (dependents_of steps d) s0 = 0" by (simp add: count_list_0_iff)
    with True p show ?thesis
      by (simp add: dependents_of_Cons deps_of_def count_list_append count_list_replicate)
  next
    case False
    with ih p show ?thesis
      by (simp add: dependents_of_Cons deps_of_def count_list_append count_list_replicate)
  qed
qed

lemma keys_filter:
  "distinct (map fst al) \<Longrightarrow>
   set (map fst (filter (\<lambda>(k, v). P v) al)) = {k. \<exists>v. map_of al k = Some v \<and> P v}"
  by (induction al) (auto simp: image_iff)

lemma inv_initial:
  assumes d: "distinct (map fst steps)"
    and k: "map fst deg = map fst steps"
    and m: "\<forall>k\<in>fst ` set steps. map_of deg k = Some (int (length (deps_of steps k)))"
  shows "sched_inv steps (initial_state deg w)"
proof -
  have dd: "distinct (map fst deg)" using d k by simp
  have ks: "fst ` set deg = fst ` set steps" using k by (metis list.set_map)
  have q: "set (map fst (filter (\<lambda>(step_num, degree). degree = 0) deg))
           = {k \<in> fst ` set steps. set (deps_of steps k) \<subseteq> {}}"
  proof -
    have "set (map fst (filter (\<lambda>(step_num, degree). degree = 0) deg))
          = {k. \<exists>v. map_of deg k = Some v \<and> v = 0}"
      using keys_filter[OF dd, of "\<lambda>v. v = 0"] by simp
    also have "\<dots> = {k \<in> fst ` set steps. set (deps_of steps k) \<subseteq> {}}"
    proof (intro set_eqI iffI)
      fix x assume "x \<in> {k. \<exists>v. map_of deg k = Some v \<and> v = 0}"
      then have x0: "map_of deg x = Some 0" by simp
      then have "(x, 0) \<in> set deg" by (rule map_of_SomeD)
      then have "x \<in> fst ` set deg" by force
      then have xk: "x \<in> fst ` set steps" using ks by simp
      from m[rule_format, OF xk] x0 have "deps_of steps x = []" by simp
      with xk show "x \<in> {k \<in> fst ` set steps. set (deps_of steps k) \<subseteq> {}}" by simp
    next
      fix x assume "x \<in> {k \<in> fst ` set steps. set (deps_of steps k) \<subseteq> {}}"
      then have xk: "x \<in> fst ` set steps" and "deps_of steps x = []" by auto
      with m[rule_format, OF xk] show "x \<in> {k. \<exists>v. map_of deg k = Some v \<and> v = 0}" by simp
    qed
    finally show ?thesis .
  qed
  have dq: "distinct (map fst (filter (\<lambda>(step_num, degree). degree = 0) deg))"
    using dd by (simp add: distinct_map_filter)
  have 1: "map fst (in_degree (initial_state deg w)) = map fst steps"
    using k by (simp add: initial_state_def)
  have 2: "\<forall>k\<in>fst ` set steps. map_of (in_degree (initial_state deg w)) k
        = Some (int (length (filter (\<lambda>d. d \<notin> completed_steps (initial_state deg w))
             (deps_of steps k))))"
    using m by (simp add: initial_state_def)
  have 3: "distinct (queue (initial_state deg w) @ map fst (calls (initial_state deg w)))"
    using dq by (simp add: initial_state_def)
  have 4: "set (queue (initial_state deg w)) \<union> fst ` set (calls (initial_state deg w))
       = {k \<in> fst ` set steps.
            set (deps_of steps k) \<subseteq> completed_steps (initial_state deg w)}"
    using q by (simp add: initial_state_def)
  have 5: "completed_steps (initial_state deg w) \<subseteq> fst ` set (calls (initial_state deg w))"
    by (simp add: initial_state_def)
  have 6: "\<forall>pre t c w' post. calls (initial_state deg w) = pre @ (t, c, w') # post \<longrightarrow>
         set (deps_of steps t) \<subseteq> c \<and> c \<subseteq> fst ` set pre"
    by (simp add: initial_state_def)
  from 1 2 3 4 5 6 show ?thesis
    unfolding sched_inv_def by blast
qed

lemma inv_other:
  assumes inv: "sched_inv steps st" and q: "queue st = t # rest"
  shows "sched_inv steps (st\<lparr>queue := rest,
           calls := calls st @ [(t, completed_steps st, world st)], world := w'\<rparr>)"
proof -
  let ?D = "completed_steps st"
  from inv have v3: "distinct (queue st @ map fst (calls st))"
    and v4: "set (queue st) \<union> fst ` set (calls st)
             = {k \<in> fst ` set steps. set (deps_of steps k) \<subseteq> ?D}"
    and v5: "?D \<subseteq> fst ` set (calls st)"
    and v6: "\<forall>pre t c w post. calls st = pre @ (t, c, w) # post \<longrightarrow>
               set (deps_of steps t) \<subseteq> c \<and> c \<subseteq> fst ` set pre"
    by (simp_all add: sched_inv_def)
  from v4 q have td: "set (deps_of steps t) \<subseteq> ?D" by auto
  have n6: "\<forall>pre t' c w post. calls st @ [(t, ?D, world st)] = pre @ (t', c, w) # post \<longrightarrow>
               set (deps_of steps t') \<subseteq> c \<and> c \<subseteq> fst ` set pre"
  proof (intro allI impI)
    fix pre t' c w post
    assume e: "calls st @ [(t, ?D, world st)] = pre @ (t', c, w) # post"
    show "set (deps_of steps t') \<subseteq> c \<and> c \<subseteq> fst ` set pre"
    proof (cases post rule: rev_cases)
      case Nil
      with e have "pre = calls st" "t' = t" "c = ?D" by auto
      with td v5 show ?thesis by simp
    next
      case (snoc post' x)
      with e have "calls st = pre @ (t', c, w) # post'" by simp
      with v6 show ?thesis by blast
    qed
  qed
  let ?st = "st\<lparr>queue := rest,
           calls := calls st @ [(t, completed_steps st, world st)], world := w'\<rparr>"
  have 1: "map fst (in_degree ?st) = map fst steps"
    using inv by (simp add: sched_inv_def)
  have 2: "\<forall>k\<in>fst ` set steps. map_of (in_degree ?st) k
        = Some (int (length (filter (\<lambda>d. d \<notin> completed_steps ?st) (deps_of steps k))))"
    using inv by (simp add: sched_inv_def)
  have 3: "distinct (queue ?st @ map fst (calls ?st))"
    using v3 q by auto
  have 4: "set (queue ?st) \<union> fst ` set (calls ?st)
       = {k \<in> fst ` set steps. set (deps_of steps k) \<subseteq> completed_steps ?st}"
    using v4 q by auto
  have 5: "completed_steps ?st \<subseteq> fst ` set (calls ?st)"
    using v5 by auto
  have 6: "\<forall>pre t' c w post. calls ?st = pre @ (t', c, w) # post \<longrightarrow>
         set (deps_of steps t') \<subseteq> c \<and> c \<subseteq> fst ` set pre"
    using n6 by simp
  from 1 2 3 4 5 6 show ?thesis
    unfolding sched_inv_def by blast
qed

lemma inv_success:
  assumes d: "distinct (map fst steps)"
    and inv: "sched_inv steps st" and q: "queue st = t # rest"
  shows "\<exists>deg' q'. unlock (dependents_of steps t) (in_degree st) rest = Some (deg', q')
       \<and> sched_inv steps (st\<lparr>queue := q', in_degree := deg',
            completed_steps := insert t (completed_steps st),
            calls := calls st @ [(t, completed_steps st, world st)], world := w'\<rparr>)"
proof -
  let ?D = "completed_steps st"
  let ?K = "fst ` set steps"
  let ?ds = "dependents_of steps t"
  let ?deg = "in_degree st"
  from inv have v1: "map fst ?deg = map fst steps"
    and v2: "\<forall>k\<in>?K. map_of ?deg k
        = Some (int (length (filter (\<lambda>d. d \<notin> ?D) (deps_of steps k))))"
    and v3: "distinct (queue st @ map fst (calls st))"
    and v4: "set (queue st) \<union> fst ` set (calls st)
             = {k \<in> ?K. set (deps_of steps k) \<subseteq> ?D}"
    and v5: "?D \<subseteq> fst ` set (calls st)"
    and v6: "\<forall>pre t c w post. calls st = pre @ (t, c, w) # post \<longrightarrow>
               set (deps_of steps t) \<subseteq> c \<and> c \<subseteq> fst ` set pre"
    by (simp_all add: sched_inv_def)
  have kk: "fst ` set ?deg = ?K" using v1 by (metis list.set_map)
  from v4 q have tK: "t \<in> ?K" and td: "set (deps_of steps t) \<subseteq> ?D" by auto
  from v3 q have tS: "t \<notin> fst ` set (calls st)" and tr: "t \<notin> set rest" by auto
  with v5 have tD: "t \<notin> ?D" by auto
  have cnt: "\<And>k. count_list ?ds k = count_list (deps_of steps k) t"
    using d by (rule count_dependents)
  have pre1: "set ?ds \<subseteq> set (map fst ?deg)"
    using set_dependents[of steps t] v1 by simp
  have pre2: "\<forall>k v. map_of ?deg k = Some v \<longrightarrow> int (count_list ?ds k) \<le> v"
  proof (intro allI impI)
    fix k v assume a: "map_of ?deg k = Some v"
    then have "(k, v) \<in> set ?deg" by (rule map_of_SomeD)
    then have "k \<in> ?K" using kk by force
    from v2[rule_format, OF this] a
    have "v = int (length (filter (\<lambda>d. d \<notin> ?D) (deps_of steps k)))" by simp
    moreover have "count_list (deps_of steps k) t \<le> length (filter (\<lambda>d. d \<notin> ?D) (deps_of steps k))"
      using tD by (simp add: count_le_filter)
    ultimately show "int (count_list ?ds k) \<le> v" by (simp add: cnt)
  qed
  from unlock_spec[OF pre1 pre2, of rest] obtain deg' new where
    u: "unlock ?ds ?deg rest = Some (deg', rest @ new)"
    and k': "map fst deg' = map fst ?deg"
    and m': "\<forall>k v. map_of ?deg k = Some v \<longrightarrow> map_of deg' k = Some (v - int (count_list ?ds k))"
    and dn: "distinct new"
    and sn: "set new = {k \<in> set ?ds. map_of ?deg k = Some (int (count_list ?ds k))}"
    by blast
  have new_eq: "set new = {k \<in> ?K. t \<in> set (deps_of steps k)
                  \<and> set (deps_of steps k) \<subseteq> insert t ?D}"
  proof (intro set_eqI iffI)
    fix k assume "k \<in> set new"
    with sn have kd: "k \<in> set ?ds" and mk: "map_of ?deg k = Some (int (count_list ?ds k))"
      by auto
    from kd set_dependents have kK: "k \<in> ?K" by blast
    from kd have "count_list ?ds k \<noteq> 0" by (simp add: count_list_0_iff)
    then have tin: "t \<in> set (deps_of steps k)" by (simp add: cnt count_list_0_iff)
    from v2[rule_format, OF kK] mk
    have "length (filter (\<lambda>d. d \<notin> ?D) (deps_of steps k)) = count_list (deps_of steps k) t"
      by (simp add: cnt)
    then have "set (deps_of steps k) \<subseteq> insert t ?D"
      using filter_eq_count_iff[OF tD] by blast
    with kK tin show "k \<in> {k \<in> ?K. t \<in> set (deps_of steps k)
                  \<and> set (deps_of steps k) \<subseteq> insert t ?D}" by simp
  next
    fix k assume "k \<in> {k \<in> ?K. t \<in> set (deps_of steps k)
                  \<and> set (deps_of steps k) \<subseteq> insert t ?D}"
    then have kK: "k \<in> ?K" and tin: "t \<in> set (deps_of steps k)"
      and sub: "set (deps_of steps k) \<subseteq> insert t ?D" by auto
    from tin have "count_list ?ds k \<noteq> 0" by (simp add: cnt count_list_0_iff)
    then have kd: "k \<in> set ?ds" by (simp add: count_list_0_iff)
    from sub have "length (filter (\<lambda>d. d \<notin> ?D) (deps_of steps k)) = count_list (deps_of steps k) t"
      using filter_eq_count_iff[OF tD] by blast
    with v2[rule_format, OF kK] have "map_of ?deg k = Some (int (count_list ?ds k))"
      by (simp add: cnt)
    with kd sn show "k \<in> set new" by simp
  qed
  have new_fresh: "\<And>k. k \<in> set new \<Longrightarrow> k \<notin> set (queue st) \<and> k \<notin> fst ` set (calls st)"
  proof -
    fix k assume "k \<in> set new"
    with new_eq have "t \<in> set (deps_of steps k)" by simp
    with tD have "\<not> set (deps_of steps k) \<subseteq> ?D" by auto
    with v4 show "k \<notin> set (queue st) \<and> k \<notin> fst ` set (calls st)" by blast
  qed
  let ?st = "st\<lparr>queue := rest @ new, in_degree := deg',
            completed_steps := insert t ?D,
            calls := calls st @ [(t, ?D, world st)], world := w'\<rparr>"
  have 1: "map fst (in_degree ?st) = map fst steps"
    using k' v1 by simp
  have 2: "\<forall>k\<in>?K. map_of (in_degree ?st) k
        = Some (int (length (filter (\<lambda>d. d \<notin> completed_steps ?st) (deps_of steps k))))"
  proof
    fix k assume kK: "k \<in> ?K"
    from v2[rule_format, OF kK] m'
    have "map_of deg' k = Some (int (length (filter (\<lambda>d. d \<notin> ?D) (deps_of steps k)))
            - int (count_list ?ds k))" by blast
    then have "map_of deg' k
        = Some (int (length (filter (\<lambda>d. d \<notin> insert t ?D) (deps_of steps k))))"
      by (simp only: cnt filter_insert_count[OF tD])
    then show "map_of (in_degree ?st) k
        = Some (int (length (filter (\<lambda>d. d \<notin> completed_steps ?st) (deps_of steps k))))"
      by (simp del: insert_iff)
  qed
  have 3: "distinct (queue ?st @ map fst (calls ?st))"
  proof -
    have "t \<notin> set new"
    proof
      assume "t \<in> set new"
      with new_eq have "t \<in> set (deps_of steps t)" by simp
      with td tD show False by auto
    qed
    with v3 q dn new_fresh show ?thesis by auto
  qed
  have 4: "set (queue ?st) \<union> fst ` set (calls ?st)
       = {k \<in> ?K. set (deps_of steps k) \<subseteq> completed_steps ?st}"
  proof (intro set_eqI iffI)
    fix k assume "k \<in> set (queue ?st) \<union> fst ` set (calls ?st)"
    then consider "k \<in> set (queue st) \<union> fst ` set (calls st)" | "k \<in> set new"
      using q by auto
    then show "k \<in> {k \<in> ?K. set (deps_of steps k) \<subseteq> completed_steps ?st}"
    proof cases
      case 1
      with v4 show ?thesis by auto
    next
      case 2
      with new_eq show ?thesis by simp
    qed
  next
    fix k assume "k \<in> {k \<in> ?K. set (deps_of steps k) \<subseteq> completed_steps ?st}"
    then have kK: "k \<in> ?K" and sub: "set (deps_of steps k) \<subseteq> insert t ?D" by auto
    show "k \<in> set (queue ?st) \<union> fst ` set (calls ?st)"
    proof (cases "set (deps_of steps k) \<subseteq> ?D")
      case True
      with kK v4 have "k \<in> set (queue st) \<union> fst ` set (calls st)" by blast
      with q show ?thesis by auto
    next
      case False
      with sub have "t \<in> set (deps_of steps k)" by auto
      with kK sub new_eq have "k \<in> set new" by simp
      then show ?thesis by simp
    qed
  qed
  have 5: "completed_steps ?st \<subseteq> fst ` set (calls ?st)"
    using v5 by auto
  have 6: "\<forall>pre t' c w post. calls ?st = pre @ (t', c, w) # post \<longrightarrow>
         set (deps_of steps t') \<subseteq> c \<and> c \<subseteq> fst ` set pre"
  proof (intro allI impI)
    fix pre t' c w post
    assume "calls ?st = pre @ (t', c, w) # post"
    then have e: "calls st @ [(t, ?D, world st)] = pre @ (t', c, w) # post" by simp
    show "set (deps_of steps t') \<subseteq> c \<and> c \<subseteq> fst ` set pre"
    proof (cases post rule: rev_cases)
      case Nil
      with e have "pre = calls st" "t' = t" "c = ?D" by auto
      with td v5 show ?thesis by simp
    next
      case (snoc post' x)
      with e have "calls st = pre @ (t', c, w) # post'" by simp
      with v6 show ?thesis by blast
    qed
  qed
  from 1 2 3 4 5 6 have "sched_inv steps ?st"
    unfolding sched_inv_def by blast
  with u show ?thesis by blast
qed

lemma run_loop_rule [case_names empty no_step no_adj no_degree success halted other]:
  assumes "\<And>st. queue st = [] \<Longrightarrow> P st (finished steps st)"
    and "\<And>st t rest. queue st = t # rest \<Longrightarrow> map_of steps t = None
           \<Longrightarrow> P st (KeyError, st\<lparr>queue := rest\<rparr>)"
    and "\<And>st t rest task w'. queue st = t # rest \<Longrightarrow> map_of steps t = Some task
           \<Longrightarrow> exec t task (completed_steps st) (world st) = (py ''success'', w')
           \<Longrightarrow> map_of adj_list t = None \<Longrightarrow> P st (KeyError, st\<lparr>queue := rest\<rparr>)"
    and "\<And>st t rest task w' ds. queue st = t # rest \<Longrightarrow> map_of steps t = Some task
           \<Longrightarrow> exec t task (completed_steps st) (world st) = (py ''success'', w')
           \<Longrightarrow> map_of adj_list t = Some ds \<Longrightarrow> unlock ds (in_degree st) rest = None
           \<Longrightarrow> P st (KeyError, st\<lparr>queue := rest\<rparr>)"
    and "\<And>st t rest task w' ds deg' q'. queue st = t # rest \<Longrightarrow> map_of steps t = Some task
           \<Longrightarrow> exec t task (completed_steps st) (world st) = (py ''success'', w')
           \<Longrightarrow> map_of adj_list t = Some ds
           \<Longrightarrow> unlock ds (in_degree st) rest = Some (deg', q')
           \<Longrightarrow> P (completed st t q' deg' w')
                 (run_loop exec steps adj_list (completed st t q' deg' w'))
           \<Longrightarrow> P st (run_loop exec steps adj_list (completed st t q' deg' w'))"
    and "\<And>st t rest task result w'. queue st = t # rest \<Longrightarrow> map_of steps t = Some task
           \<Longrightarrow> exec t task (completed_steps st) (world st) = (result, w')
           \<Longrightarrow> result = py ''aborted'' \<or> result = py ''skipped''
           \<Longrightarrow> P st (Halted (0 < card (completed_steps st)), begun st t rest w')"
    and "\<And>st t rest task result w'. queue st = t # rest \<Longrightarrow> map_of steps t = Some task
           \<Longrightarrow> exec t task (completed_steps st) (world st) = (result, w')
           \<Longrightarrow> result \<noteq> py ''success'' \<Longrightarrow> result \<noteq> py ''aborted''
           \<Longrightarrow> result \<noteq> py ''skipped''
           \<Longrightarrow> P (begun st t rest w') (run_loop exec steps adj_list (begun st t rest w'))
           \<Longrightarrow> P st (run_loop exec steps adj_list (begun st t rest w'))"
  shows "P st (run_loop exec steps adj_list st)"
  using assms
proof (induction exec steps adj_list st rule: run_loop.induct)
  case (1 exec steps adj_list st)
  note hyps = "1.prems"
  show ?case
  proof (cases "queue st")
    case Nil
    with hyps(1)[OF Nil] show ?thesis
      by (simp add: run_loop.simps[of exec steps adj_list st] finished_def)
  next
    case (Cons t rest)
    note q = Cons
    show ?thesis
    proof (cases "map_of steps t")
      case None
      with q hyps(2)[OF q None] show ?thesis
        by (simp add: run_loop.simps[of exec steps adj_list st])
    next
      case (Some task)
      note tk = Some
      obtain result w' where ex: "exec t task (completed_steps st) (world st) = (result, w')"
        by (cases "exec t task (completed_steps st) (world st)")
      show ?thesis
      proof (cases "result = py ''success''")
        case True
        note su = True
        from ex su have ex': "exec t task (completed_steps st) (world st) = (py ''success'', w')"
          by simp
        show ?thesis
        proof (cases "map_of adj_list t")
          case None
          with q tk ex su hyps(3)[OF q tk ex' None] show ?thesis
            by (simp add: run_loop.simps[of exec steps adj_list st])
        next
          case (Some ds)
          note ad = Some
          show ?thesis
          proof (cases "unlock ds (in_degree st) rest")
            case None
            with q tk ex su ad hyps(4)[OF q tk ex' ad None] show ?thesis
              by (simp add: run_loop.simps[of exec steps adj_list st])
          next
            case (Some p)
            obtain deg' q' where p: "p = (deg', q')" by (cases p)
            have ih: "P (completed st t q' deg' w')
                        (run_loop exec steps adj_list (completed st t q' deg' w'))"
              using "1.IH"(1)[OF q tk ex[symmetric] su ad Some[unfolded p] refl] hyps
              by (simp add: completed_def)
            have eq: "run_loop exec steps adj_list st
                      = run_loop exec steps adj_list (completed st t q' deg' w')"
              using q tk ex su ad Some p
              by (simp add: run_loop.simps[of exec steps adj_list st] completed_def)
            from hyps(5)[OF q tk ex' ad Some[unfolded p] ih] eq show ?thesis
              by simp
          qed
        qed
      next
        case False
        note nsu = False
        show ?thesis
        proof (cases "result = py ''aborted'' \<or> result = py ''skipped''")
          case True
          have "run_loop exec steps adj_list st
                = (Halted (0 < card (completed_steps st)), begun st t rest w')"
            using q tk ex nsu True
            by (simp add: run_loop.simps[of exec steps adj_list st] begun_def)
          with hyps(6)[OF q tk ex True] show ?thesis by simp
        next
          case False
          have ih: "P (begun st t rest w') (run_loop exec steps adj_list (begun st t rest w'))"
            using "1.IH"(2)[OF q tk ex[symmetric] nsu False] hyps
            by (simp add: begun_def)
          have eq: "run_loop exec steps adj_list st
                    = run_loop exec steps adj_list (begun st t rest w')"
            using q tk ex nsu False
            by (simp add: run_loop.simps[of exec steps adj_list st] begun_def)
          from False have "result \<noteq> py ''aborted''" "result \<noteq> py ''skipped''" by auto
          from hyps(7)[OF q tk ex nsu this ih] eq show ?thesis by simp
        qed
      qed
    qed
  qed
qed

lemma run_loop_fifo:
  "fifo (map fst (calls st)) (queue st) (started (run_loop exec steps adj_list st))"
proof (induction st rule: run_loop_rule[where exec = exec and steps = steps
      and adj_list = adj_list
      and P = "\<lambda>st r. fifo (map fst (calls st)) (queue st) (started r)"])
  case (empty st)
  then show ?case by (simp add: finished_def started_def fifo_def)
next
  case (no_step st t rest)
  then show ?case by (simp add: started_def fifo_stop)
next
  case (no_adj st t rest task w')
  then show ?case by (simp add: started_def fifo_stop)
next
  case (no_degree st t rest task w' ds)
  then show ?case by (simp add: started_def fifo_stop)
next
  case (success st t rest task w' ds deg' q')
  then obtain new where nw: "q' = rest @ new"
    using unlock_appends by blast
  from success have "fifo (map fst (calls (completed st t q' deg' w')))
      (queue (completed st t q' deg' w'))
      (started (run_loop exec steps adj_list (completed st t q' deg' w')))"
    by blast
  then have "fifo (map fst (calls st) @ [t]) (rest @ new)
      (started (run_loop exec steps adj_list (completed st t q' deg' w')))"
    by (simp add: completed_def nw)
  moreover from success have "queue st = t # rest"
    by blast
  ultimately show ?case
    by (simp add: fifo_step)
next
  case (halted st t rest task result w')
  then show ?case by (simp add: started_def begun_def fifo_stop1)
next
  case (other st t rest task result w')
  then have "fifo (map fst (calls (begun st t rest w'))) (queue (begun st t rest w'))
      (started (run_loop exec steps adj_list (begun st t rest w')))"
    by blast
  then have "fifo (map fst (calls st) @ [t]) (rest @ [])
      (started (run_loop exec steps adj_list (begun st t rest w')))"
    by (simp add: begun_def)
  moreover from other have "queue st = t # rest"
    by blast
  ultimately show ?case
    using fifo_step[of "map fst (calls st)" t rest "[]"] by simp
qed

lemma calls_grow: "\<exists>more. calls (snd (run_loop exec steps adj_list st)) = calls st @ more"
proof (induction st rule: run_loop_rule[where exec = exec and steps = steps and adj_list = adj_list])
  case (empty st)
  then show ?case by (simp add: finished_def)
next
  case (success st t rest task w' ds deg' q')
  then show ?case by (auto simp: completed_def)
next
  case (halted st t rest task result w')
  then show ?case by (simp add: begun_def)
next
  case (other st t rest task result w')
  then show ?case by (auto simp: begun_def)
qed simp_all

lemma queue_head_step:
  assumes "sched_inv steps st" "queue st = t # rest"
  shows "t \<in> fst ` set steps"
proof -
  from assms(1) have "set (queue st) \<union> fst ` set (calls st)
             = {k \<in> fst ` set steps. set (deps_of steps k) \<subseteq> completed_steps st}"
    by (simp add: sched_inv_def)
  with assms(2) show ?thesis by auto
qed

lemma run_loop_ok:
  assumes d: "distinct (map fst steps)" and a: "adj_ok steps adj_list"
  shows "sched_inv steps st \<longrightarrow> run_ok exec steps (run_loop exec steps adj_list st)"
proof (induction st rule: run_loop_rule[where exec = exec and steps = steps and adj_list = adj_list])
  case (empty st)
  then show ?case by (simp add: run_ok_def finished_def)
next
  case (no_step st t rest)
  show ?case
  proof
    assume "sched_inv steps st"
    from queue_head_step[OF this no_step(1)] no_step(2) show "run_ok exec steps (KeyError, st\<lparr>queue := rest\<rparr>)"
      by (simp add: map_of_eq_None_iff)
  qed
next
  case (no_adj st t rest task w')
  show ?case
  proof
    assume "sched_inv steps st"
    from a[unfolded adj_ok_def, rule_format, OF queue_head_step[OF this no_adj(1)]] no_adj(4)
    show "run_ok exec steps (KeyError, st\<lparr>queue := rest\<rparr>)"
      by simp
  qed
next
  case (no_degree st t rest task w' ds)
  show ?case
  proof
    assume i: "sched_inv steps st"
    from a[unfolded adj_ok_def, rule_format, OF queue_head_step[OF i no_degree(1)]] no_degree(4)
    have "ds = dependents_of steps t" by simp
    with inv_success[OF d i no_degree(1)] no_degree(5)
    show "run_ok exec steps (KeyError, st\<lparr>queue := rest\<rparr>)" by auto
  qed
next
  case (success st t rest task w' ds deg' q')
  show ?case
  proof
    assume i: "sched_inv steps st"
    from a[unfolded adj_ok_def, rule_format, OF queue_head_step[OF i success(1)]] success(4)
    have "ds = dependents_of steps t" by simp
    with inv_success[OF d i success(1), of w'] success(5)
    have "sched_inv steps (completed st t q' deg' w')" by (auto simp: completed_def)
    with success(6) show "run_ok exec steps (run_loop exec steps adj_list (completed st t q' deg' w'))"
      by simp
  qed
next
  case (halted st t rest task result w')
  show ?case
  proof
    assume i: "sched_inv steps st"
    have "sched_inv steps (begun st t rest w')"
      using inv_other[OF i halted(1)] by (simp add: begun_def)
    moreover have "\<not> none_halts exec steps (Halted (0 < card (completed_steps st)), begun st t rest w')"
      using halted(2,3,4) by (auto simp: none_halts_def begun_def call_result_def)
    ultimately show "run_ok exec steps (Halted (0 < card (completed_steps st)), begun st t rest w')"
      unfolding run_ok_def by fastforce
  qed
next
  case (other st t rest task result w')
  show ?case
  proof
    assume i: "sched_inv steps st"
    have "sched_inv steps (begun st t rest w')"
      using inv_other[OF i other(1)] by (simp add: begun_def)
    with other(7) show "run_ok exec steps (run_loop exec steps adj_list (begun st t rest w'))"
      by simp
  qed
qed

lemma success_not_halt: "py ''success'' \<noteq> py ''aborted''" "py ''success'' \<noteq> py ''skipped''"
  by (simp_all add: py_def)

lemma run_loop_all_succeed:
  "all_succeed exec steps (run_loop exec steps adj_list st) \<longrightarrow>
   fst ` set (calls st) \<subseteq> completed_steps st \<longrightarrow>
   fst ` set (calls (snd (run_loop exec steps adj_list st)))
     \<subseteq> completed_steps (snd (run_loop exec steps adj_list st))"
proof (induction st rule: run_loop_rule[where exec = exec and steps = steps and adj_list = adj_list
      and P = "\<lambda>st r. all_succeed exec steps r \<longrightarrow>
   fst ` set (calls st) \<subseteq> completed_steps st \<longrightarrow>
   fst ` set (calls (snd r)) \<subseteq> completed_steps (snd r)"])
  case (empty st)
  then show ?case by (simp add: finished_def)
next
  case (success st t rest task w' ds deg' q')
  then show ?case by (auto simp: completed_def)
next
  case (halted st t rest task result w')
  then show ?case
    by (auto simp: all_succeed_def begun_def call_result_def success_not_halt)
next
  case (other st t rest task result w')
  let ?r = "run_loop exec steps adj_list (begun st t rest w')"
  show ?case
  proof (intro impI)
    assume as: "all_succeed exec steps ?r"
    obtain more where "calls (snd ?r) = calls (begun st t rest w') @ more"
      using calls_grow by blast
    then have "(t, completed_steps st, world st) \<in> set (calls (snd ?r))"
      by (simp add: begun_def)
    with as have "call_result exec steps (t, completed_steps st, world st) = Some (py ''success'')"
      by (simp add: all_succeed_def list_all_iff)
    with other have False by (auto simp: call_result_def)
    then show "fst ` set (calls (snd ?r)) \<subseteq> completed_steps (snd ?r)" ..
  qed
qed simp_all

lemma schedule_ok:
  assumes d: "distinct (map fst steps)" and n: "no_dangling steps"
  shows "run_ok exec steps (schedule exec steps w)"
proof -
  from build_graph_ok[OF d n] obtain adj deg where
    b: "build_graph steps = Inr (adj, deg)" and k: "map fst deg = map fst steps"
    and a: "\<forall>k\<in>fst ` set steps. map_of adj k = Some (dependents_of steps k)"
    and m: "\<forall>k\<in>fst ` set steps. map_of deg k = Some (int (length (deps_of steps k)))"
    by blast
  have "sched_inv steps (initial_state deg w)"
    using d k m by (rule inv_initial)
  moreover have "adj_ok steps adj" using a by (simp add: adj_ok_def)
  ultimately have "run_ok exec steps (run_loop exec steps adj (initial_state deg w))"
    using run_loop_ok[OF d] by blast
  with b show ?thesis by (simp add: schedule_def)
qed

lemma schedule_all_succeed:
  assumes d: "distinct (map fst steps)" and n: "no_dangling steps"
    and s: "all_succeed exec steps (schedule exec steps w)"
  shows "fst ` set (calls (snd (schedule exec steps w)))
         \<subseteq> completed_steps (snd (schedule exec steps w))"
proof -
  from build_graph_ok[OF d n] obtain adj deg where
    b: "build_graph steps = Inr (adj, deg)" by blast
  have e: "schedule exec steps w = run_loop exec steps adj (initial_state deg w)"
    using b by (simp add: schedule_def)
  have "fst ` set (calls (initial_state deg w)) \<subseteq> completed_steps (initial_state deg w)"
    by (simp add: initial_state_def)
  with run_loop_all_succeed[of exec steps adj "initial_state deg w"] s e show ?thesis
    by simp
qed

lemma cycle_dep: "(t, t) \<in> r\<^sup>+ \<Longrightarrow> \<exists>d. (d, t) \<in> r \<and> (d, d) \<in> r\<^sup>+"
proof -
  assume "(t, t) \<in> r\<^sup>+"
  then obtain d where "(t, d) \<in> r\<^sup>*" "(d, t) \<in> r"
    by (meson tranclD2)
  then have "(d, d) \<in> r\<^sup>+" by (meson rtrancl_into_trancl2)
  with \<open>(d, t) \<in> r\<close> show ?thesis by blast
qed

lemma started_not_cyclic:
  assumes inv: "sched_inv steps st"
  shows "calls st = pre @ (t, c, w) # post \<Longrightarrow> (t, t) \<notin> (depends_on steps)\<^sup>+"
proof (induction "length pre" arbitrary: pre t c w post rule: less_induct)
  case less
  from inv have v6: "\<forall>pre t c w post. calls st = pre @ (t, c, w) # post \<longrightarrow>
               set (deps_of steps t) \<subseteq> c \<and> c \<subseteq> fst ` set pre"
    by (simp add: sched_inv_def)
  with less.prems have sub: "set (deps_of steps t) \<subseteq> fst ` set pre" by blast
  show ?case
  proof
    assume "(t, t) \<in> (depends_on steps)\<^sup>+"
    from cycle_dep[OF this] obtain d where dt: "(d, t) \<in> depends_on steps"
      and dd: "(d, d) \<in> (depends_on steps)\<^sup>+" by blast
    from dt have "d \<in> set (deps_of steps t)" by (simp add: depends_on_def)
    with sub have "d \<in> fst ` set pre" by blast
    then obtain c' w' where "(d, c', w') \<in> set pre" by force
    then obtain pre1 post1 where p: "pre = pre1 @ (d, c', w') # post1"
      by (meson split_list)
    with less.prems have "calls st = pre1 @ (d, c', w') # (post1 @ (t, c, w) # post)"
      by simp
    moreover from p have "length pre1 < length pre" by simp
    ultimately have "(d, d) \<notin> (depends_on steps)\<^sup>+"
      using less.hyps by blast
    with dd show False by contradiction
  qed
qed

lemma depends_on_eq:
  "depends_on steps = (\<Union>k\<in>fst ` set steps. set (deps_of steps k) \<times> {k})"
proof (intro set_eqI iffI)
  fix x assume "x \<in> depends_on steps"
  then obtain d k where x: "x = (d, k)" and dk: "d \<in> set (deps_of steps k)"
    by (auto simp: depends_on_def)
  then have "deps_of steps k \<noteq> []" by auto
  then have "map_of steps k \<noteq> None" by (auto simp: deps_of_def split: option.splits)
  then have "k \<in> fst ` set steps" by (simp add: map_of_eq_None_iff)
  with x dk show "x \<in> (\<Union>k\<in>fst ` set steps. set (deps_of steps k) \<times> {k})" by blast
next
  fix x assume "x \<in> (\<Union>k\<in>fst ` set steps. set (deps_of steps k) \<times> {k})"
  then show "x \<in> depends_on steps" by (auto simp: depends_on_def)
qed

lemma finite_depends_on: "finite (depends_on steps)"
  unfolding depends_on_eq by (rule finite_UN_I) simp_all

lemma card_keys: "distinct (map fst steps) \<Longrightarrow> card (fst ` set steps) = length steps"
  using distinct_card[of "map fst steps"] by simp

lemma keys_filter_list:
  "distinct (map fst al) \<Longrightarrow>
   map fst (filter (\<lambda>(k, v). P v) al)
   = filter (\<lambda>k. \<exists>v. map_of al k = Some v \<and> P v) (map fst al)"
proof (induction al)
  case Nil
  then show ?case by simp
next
  case (Cons p al)
  obtain k0 v0 where p: "p = (k0, v0)" by (cases p)
  from Cons.prems p have nk: "k0 \<notin> fst ` set al" and dl: "distinct (map fst al)" by simp_all
  have "filter (\<lambda>k. \<exists>v. map_of (p # al) k = Some v \<and> P v) (map fst al)
        = filter (\<lambda>k. \<exists>v. map_of al k = Some v \<and> P v) (map fst al)"
    using nk p by (intro filter_cong) auto
  with Cons.IH[OF dl] p show ?case by simp
qed

lemma initial_queue:
  assumes d: "distinct (map fst steps)"
    and k: "map fst deg = map fst steps"
    and m: "\<forall>k\<in>fst ` set steps. map_of deg k = Some (int (length (deps_of steps k)))"
  shows "queue (initial_state deg w) = filter (\<lambda>k. deps_of steps k = []) (map fst steps)"
proof -
  have dd: "distinct (map fst deg)" using d k by simp
  have "queue (initial_state deg w)
        = filter (\<lambda>k. \<exists>v. map_of deg k = Some v \<and> v = 0) (map fst deg)"
    using keys_filter_list[OF dd, of "\<lambda>v. v = 0"] by (simp add: initial_state_def)
  also have "\<dots> = filter (\<lambda>k. deps_of steps k = []) (map fst steps)"
    unfolding k
  proof (rule filter_cong[OF refl])
    fix x assume "x \<in> set (map fst steps)"
    then have "x \<in> fst ` set steps" by simp
    from m[rule_format, OF this]
    show "(\<exists>v. map_of deg x = Some v \<and> v = 0) = (deps_of steps x = [])" by simp
  qed
  finally show ?thesis .
qed

text \<open>
  C1, as the code has it. For every dictionary of steps without a dangling dependency,
  the loop starts no step twice, and every step is started with a completed set that
  holds all its dependencies. If moreover the dependency graph has no cycle and every
  step started ends with \<^verbatim>\<open>'success'\<close>, every step of the dictionary is started (so exactly
  once) and the phase ends with all steps completed.
\<close>

theorem each_step_once:
  assumes d: "distinct (map fst steps)" and n: "no_dangling steps"
  shows "distinct (started (schedule exec steps w))
       \<and> list_all (\<lambda>(t, c, w'). set (deps_of steps t) \<subseteq> c) (calls (snd (schedule exec steps w)))
       \<and> (acyclic (depends_on steps) \<and> all_succeed exec steps (schedule exec steps w)
            \<longrightarrow> set (started (schedule exec steps w)) = fst ` set steps
                \<and> fst (schedule exec steps w) = AllDone)"
proof -
  let ?r = "schedule exec steps w"
  let ?st = "snd ?r"
  let ?S = "fst ` set (calls ?st)"
  let ?K = "fst ` set steps"
  have ok: "run_ok exec steps ?r" using d n by (rule schedule_ok)
  then have inv: "sched_inv steps ?st" by (simp add: run_ok_def)
  then have v3: "distinct (queue ?st @ map fst (calls ?st))"
    and v4: "set (queue ?st) \<union> ?S = {k \<in> ?K. set (deps_of steps k) \<subseteq> completed_steps ?st}"
    and v5: "completed_steps ?st \<subseteq> ?S"
    and v6: "\<forall>pre t c w post. calls ?st = pre @ (t, c, w) # post \<longrightarrow>
               set (deps_of steps t) \<subseteq> c \<and> c \<subseteq> fst ` set pre"
    by (simp_all add: sched_inv_def)
  have 1: "distinct (started ?r)"
    using v3 by (simp add: started_def)
  have 2: "list_all (\<lambda>(t, c, w'). set (deps_of steps t) \<subseteq> c) (calls ?st)"
    unfolding list_all_iff
  proof (clarify)
    fix t c w' x assume "(t, c, w') \<in> set (calls ?st)" and x: "x \<in> set (deps_of steps t)"
    then obtain pre post where "calls ?st = pre @ (t, c, w') # post"
      by (meson split_list)
    with v6 x show "x \<in> c" by blast
  qed
  have 3: "set (started ?r) = ?K \<and> fst ?r = AllDone"
    if ac: "acyclic (depends_on steps)" and su: "all_succeed exec steps ?r"
  proof -
    have sd: "?S \<subseteq> completed_steps ?st"
      using d n su by (rule schedule_all_succeed)
    with v5 have eq: "completed_steps ?st = ?S" by blast
    have nh: "none_halts exec steps ?r"
      using su by (auto simp: all_succeed_def none_halts_def list_all_iff success_not_halt)
    with ok have nohalt: "\<forall>b. fst ?r \<noteq> Halted b" by (auto simp: run_ok_def)
    with ok have qe: "queue ?st = []" and fin: "fst ?r = fst (finished steps ?st)"
      by (simp_all add: run_ok_def)
    have "set (queue ?st) \<union> ?S = ?S"
      by (simp only: qe list.set Un_empty_left)
    from trans[OF this[symmetric] v4]
    have fp: "?S = {k \<in> ?K. set (deps_of steps k) \<subseteq> ?S}"
      by (simp only: eq)
    have wf: "wf (depends_on steps)"
      using finite_depends_on ac by (rule finite_acyclic_wf)
    have "?K \<subseteq> ?S"
    proof (rule ccontr)
      assume "\<not> ?K \<subseteq> ?S"
      then obtain x where "x \<in> ?K - ?S" by blast
      from wfE_min[OF wf this] obtain z where z: "z \<in> ?K - ?S"
        and mn: "\<And>y. (y, z) \<in> depends_on steps \<Longrightarrow> y \<notin> ?K - ?S" by blast
      have "set (deps_of steps z) \<subseteq> ?S"
      proof
        fix y assume y: "y \<in> set (deps_of steps z)"
        then have "(y, z) \<in> depends_on steps" by (simp add: depends_on_def)
        then have "y \<notin> ?K - ?S" by (rule mn)
        moreover from n z y have "y \<in> ?K" by (auto simp: no_dangling_def)
        ultimately show "y \<in> ?S" by blast
      qed
      with z have "z \<in> {k \<in> ?K. set (deps_of steps k) \<subseteq> ?S}" by simp
      with fp have "z \<in> ?S" by simp
      with z show False by simp
    qed
    moreover have "?S \<subseteq> ?K"
    proof
      fix x assume "x \<in> ?S"
      with fp have "x \<in> {k \<in> ?K. set (deps_of steps k) \<subseteq> ?S}" by simp
      then show "x \<in> ?K" by simp
    qed
    ultimately have sk: "?S = ?K" by (rule subset_antisym[rotated])
    then have "card (completed_steps ?st) = length steps"
      using eq card_keys[OF d] by simp
    then have "fst (finished steps ?st) = AllDone"
      by (simp add: finished_def)
    with fin have "fst ?r = AllDone"
      by simp
    with sk show ?thesis by (simp add: started_def)
  qed
  from 3 have "acyclic (depends_on steps) \<and> all_succeed exec steps ?r
            \<longrightarrow> set (started ?r) = ?K \<and> fst ?r = AllDone"
    by simp
  with 1 2 show ?thesis
    by simp
qed

text \<open>
  The graph of the specification: step 1 without dependencies, steps 2 and 3 depending on
  step 1, every step succeeding.
\<close>

theorem each_step_once_witness:
  "distinct (map fst (graph [(1, []), (2, [1]), (3, [1])]))
   \<and> no_dangling (graph [(1, []), (2, [1]), (3, [1])])
   \<and> acyclic (depends_on (graph [(1, []), (2, [1]), (3, [1])]))
   \<and> all_succeed always_success (graph [(1, []), (2, [1]), (3, [1])])
        (schedule always_success (graph [(1, []), (2, [1]), (3, [1])]) ())
   \<and> calls (snd (schedule always_success (graph [(1, []), (2, [1]), (3, [1])]) ()))
     = [(1, {}, ()), (2, {1}, ()), (3, {1, 2}, ())]
   \<and> set (started (schedule always_success (graph [(1, []), (2, [1]), (3, [1])]) ()))
     = {1, 2, 3}
   \<and> fst (schedule always_success (graph [(1, []), (2, [1]), (3, [1])]) ()) = AllDone"
proof -
  let ?g = "graph [(1, []), (2, [1]), (3, [1])]"
  have r: "schedule always_success ?g ()
     = (AllDone, \<lparr>queue = [], in_degree = [(1, 0), (2, 0), (3, 0)],
          completed_steps = {1, 2, 3},
          calls = [(1, {}, ()), (2, {1}, ()), (3, {1, 2}, ())], world = ()\<rparr>)"
    by (simp add: run_eval insert_commute)
  have d: "distinct (map fst ?g)"
    by (simp add: graph_def)
  have n: "no_dangling ?g"
    by (simp add: no_dangling_def deps_of_def graph_def)
  have "\<And>a b. (a, b) \<in> depends_on ?g \<Longrightarrow> - b < - a"
    by (auto simp: depends_on_def deps_of_def graph_def split: if_splits)
  then have a: "acyclic (depends_on ?g)"
    by (rule acyclicI_order)
  have s: "all_succeed always_success ?g (schedule always_success ?g ())"
    unfolding r by (simp add: all_succeed_def call_result_def graph_def always_success_def)
  from each_step_once[OF d n, of always_success "()"] a s
  have "set (started (schedule always_success ?g ())) = fst ` set ?g
        \<and> fst (schedule always_success ?g ()) = AllDone"
    by blast
  moreover have "fst ` set ?g = {1, 2, 3}"
    by (simp add: graph_def)
  ultimately show ?thesis
    using d n a s r by simp
qed

text \<open>
  Against C1 as the specification words it: two steps that depend on each other have no
  dangling dependency, no step that is started fails (none is started), and yet no step
  of the dictionary is ever started.
\<close>

theorem each_step_once_counterexample:
  "distinct (map fst (graph [(1, [2]), (2, [1])]))
   \<and> no_dangling (graph [(1, [2]), (2, [1])])
   \<and> all_succeed always_success (graph [(1, [2]), (2, [1])])
        (schedule always_success (graph [(1, [2]), (2, [1])]) ())
   \<and> started (schedule always_success (graph [(1, [2]), (2, [1])]) ()) = []
   \<and> fst (schedule always_success (graph [(1, [2]), (2, [1])]) ()) = Incomplete 0 2"
proof -
  let ?g = "graph [(1, [2]), (2, [1])]"
  have r: "schedule always_success ?g ()
     = (Incomplete 0 2, \<lparr>queue = [], in_degree = [(1, 1), (2, 1)],
          completed_steps = {}, calls = [], world = ()\<rparr>)"
    by (simp add: run_eval)
  have n: "no_dangling ?g"
    by (simp add: no_dangling_def deps_of_def graph_def)
  have d: "distinct (map fst ?g)"
    by (simp add: graph_def)
  have s: "all_succeed always_success ?g (schedule always_success ?g ())"
    unfolding r by (simp add: all_succeed_def)
  from d n s r show ?thesis
    by (simp add: started_def)
qed

text \<open>
  C3, as the code has it. For every dictionary of steps without a dangling dependency
  and every step on a dependency cycle: the step is never started, the number of
  completed steps stays below the number of steps, and the phase does not end with all
  steps completed. If moreover no step started ends with \<^verbatim>\<open>'aborted'\<close> or \<^verbatim>\<open>'skipped'\<close>, the
  queue runs empty and the phase ends with the schedule-incomplete report of the
  completed and the total number.
\<close>

theorem cycle_never_completes:
  assumes d: "distinct (map fst steps)" and n: "no_dangling steps"
    and c: "cyclic steps t"
  shows "t \<notin> set (started (schedule exec steps w))
       \<and> card (completed_steps (snd (schedule exec steps w))) < length steps
       \<and> fst (schedule exec steps w) \<noteq> AllDone
       \<and> (none_halts exec steps (schedule exec steps w)
            \<longrightarrow> queue (snd (schedule exec steps w)) = []
                \<and> fst (schedule exec steps w)
                  = Incomplete (card (completed_steps (snd (schedule exec steps w))))
                      (length steps))"
proof -
  let ?r = "schedule exec steps w"
  let ?st = "snd ?r"
  let ?S = "fst ` set (calls ?st)"
  let ?K = "fst ` set steps"
  have ok: "run_ok exec steps ?r" using d n by (rule schedule_ok)
  then have inv: "sched_inv steps ?st" by (simp add: run_ok_def)
  then have v4: "set (queue ?st) \<union> ?S = {k \<in> ?K. set (deps_of steps k) \<subseteq> completed_steps ?st}"
    and v5: "completed_steps ?st \<subseteq> ?S"
    by (simp_all add: sched_inv_def)
  from c have cy: "(t, t) \<in> (depends_on steps)\<^sup>+" by (simp add: cyclic_def)
  have 1: "t \<notin> set (started ?r)"
  proof
    assume "t \<in> set (started ?r)"
    then obtain c' w' where "(t, c', w') \<in> set (calls ?st)"
      by (auto simp: started_def)
    then obtain pre post where "calls ?st = pre @ (t, c', w') # post"
      by (meson split_list)
    from started_not_cyclic[OF inv this] cy show False by contradiction
  qed
  from cycle_dep[OF cy] obtain x where "(x, t) \<in> depends_on steps" by blast
  then have tK: "t \<in> ?K" unfolding depends_on_eq by blast
  from 1 have "t \<notin> ?S" by (simp add: started_def)
  with v5 have "t \<notin> completed_steps ?st" by blast
  moreover have "completed_steps ?st \<subseteq> ?K"
  proof
    fix x assume "x \<in> completed_steps ?st"
    with v5 have "x \<in> set (queue ?st) \<union> ?S" by blast
    then have "x \<in> {k \<in> ?K. set (deps_of steps k) \<subseteq> completed_steps ?st}"
      by (simp only: v4)
    then show "x \<in> ?K" by simp
  qed
  ultimately have "completed_steps ?st \<subset> ?K" using tK by blast
  then have "card (completed_steps ?st) < card ?K"
    by (simp add: psubset_card_mono)
  then have 2: "card (completed_steps ?st) < length steps"
    using card_keys[OF d] by simp
  have fin: "(\<forall>b. fst ?r \<noteq> Halted b)
             \<longrightarrow> queue ?st = [] \<and> fst ?r = fst (finished steps ?st)"
    using ok by (simp add: run_ok_def)
  have fv: "fst (finished steps ?st) = Incomplete (card (completed_steps ?st)) (length steps)"
    using 2 by (simp add: finished_def)
  have 3: "fst ?r \<noteq> AllDone"
  proof (cases "\<exists>b. fst ?r = Halted b")
    case True
    then show ?thesis by auto
  next
    case False
    with fin have "fst ?r = fst (finished steps ?st)" by simp
    with fv show ?thesis by simp
  qed
  have 4: "queue ?st = [] \<and> fst ?r = Incomplete (card (completed_steps ?st)) (length steps)"
    if nh: "none_halts exec steps ?r"
  proof -
    from ok nh have "\<forall>b. fst ?r \<noteq> Halted b" by (auto simp: run_ok_def)
    with fin have "queue ?st = []" and "fst ?r = fst (finished steps ?st)" by simp_all
    with fv show ?thesis by simp
  qed
  from 1 2 3 4 show ?thesis by blast
qed

text \<open>Step 1 without dependencies, steps 2 and 3 depending on each other.\<close>

theorem cycle_never_completes_witness:
  "distinct (map fst (graph [(1, []), (2, [3]), (3, [2])]))
   \<and> no_dangling (graph [(1, []), (2, [3]), (3, [2])])
   \<and> cyclic (graph [(1, []), (2, [3]), (3, [2])]) 2
   \<and> none_halts always_success (graph [(1, []), (2, [3]), (3, [2])])
        (schedule always_success (graph [(1, []), (2, [3]), (3, [2])]) ())
   \<and> 2 \<notin> set (started (schedule always_success (graph [(1, []), (2, [3]), (3, [2])]) ()))
   \<and> queue (snd (schedule always_success (graph [(1, []), (2, [3]), (3, [2])]) ())) = []
   \<and> fst (schedule always_success (graph [(1, []), (2, [3]), (3, [2])]) ())
     = Incomplete 1 3"
proof -
  let ?g = "graph [(1, []), (2, [3]), (3, [2])]"
  have r: "schedule always_success ?g ()
     = (Incomplete 1 3, \<lparr>queue = [], in_degree = [(1, 0), (2, 1), (3, 1)],
          completed_steps = {1}, calls = [(1, {}, ())], world = ()\<rparr>)"
    by (simp add: run_eval)
  have d: "distinct (map fst ?g)"
    by (simp add: graph_def)
  have n: "no_dangling ?g"
    by (simp add: no_dangling_def deps_of_def graph_def)
  have "(2, 3) \<in> depends_on ?g" "(3, 2) \<in> depends_on ?g"
    by (simp_all add: depends_on_def deps_of_def graph_def)
  then have "(2, 2) \<in> (depends_on ?g)\<^sup>+"
    by (meson r_into_trancl' trancl_trans)
  then have c: "cyclic ?g 2"
    by (simp add: cyclic_def)
  have h: "none_halts always_success ?g (schedule always_success ?g ())"
    unfolding r
    by (simp add: none_halts_def call_result_def graph_def always_success_def py_def)
  from cycle_never_completes[OF d n c, of always_success "()"] h
  have "2 \<notin> set (started (schedule always_success ?g ()))
        \<and> queue (snd (schedule always_success ?g ())) = []"
    by blast
  with d n c h r show ?thesis
    by simp
qed

text \<open>
  Against C3 as the specification words it: steps 1 and 3 without dependencies, step 2
  depending on itself, and a step handler that ends every step with \<^verbatim>\<open>'aborted'\<close>. The
  phase ends at step 1 with the value of \<^verbatim>\<open>len(completed_steps) > 0\<close>, which is \<^verbatim>\<open>False\<close>:
  step 3 is still in the queue, and there is no schedule-incomplete report.
\<close>

theorem cycle_never_completes_counterexample:
  "no_dangling (graph [(1, []), (3, []), (2, [2])])
   \<and> cyclic (graph [(1, []), (3, []), (2, [2])]) 2
   \<and> fst (schedule always_aborted (graph [(1, []), (3, []), (2, [2])]) ()) = Halted False
   \<and> queue (snd (schedule always_aborted (graph [(1, []), (3, []), (2, [2])]) ())) = [3]"
proof -
  let ?g = "graph [(1, []), (3, []), (2, [2])]"
  have r: "schedule always_aborted ?g ()
     = (Halted False, \<lparr>queue = [3], in_degree = [(1, 0), (3, 0), (2, 1)],
          completed_steps = {}, calls = [(1, {}, ())], world = ()\<rparr>)"
    by (simp add: run_eval)
  have n: "no_dangling ?g"
    by (simp add: no_dangling_def deps_of_def graph_def)
  have "(2, 2) \<in> depends_on ?g"
    by (simp add: depends_on_def deps_of_def graph_def)
  then have c: "cyclic ?g 2"
    by (simp add: cyclic_def r_into_trancl')
  from n c r show ?thesis
    by simp
qed

text \<open>
  C4, as the code has it. The ready queue is first in, first out, and nothing sorts it
  by step number: the steps without dependencies start first, in the order in which
  the dictionary lists them, and at every pass of the loop the steps waiting in the
  queue start in the order of the queue, before any step that becomes ready later.
\<close>

theorem ready_queue_fifo:
  assumes d: "distinct (map fst steps)" and n: "no_dangling steps"
  shows "fifo [] (filter (\<lambda>k. deps_of steps k = []) (map fst steps))
           (started (schedule exec steps w))
       \<and> fifo (map fst (calls st)) (queue st) (started (run_loop exec steps adj_list st))"
proof -
  from build_graph_ok[OF d n] obtain adj deg where
    b: "build_graph steps = Inr (adj, deg)" and k: "map fst deg = map fst steps"
    and m: "\<forall>k\<in>fst ` set steps. map_of deg k = Some (int (length (deps_of steps k)))"
    by blast
  have "fifo (map fst (calls (initial_state deg w))) (queue (initial_state deg w))
          (started (run_loop exec steps adj (initial_state deg w)))"
    by (rule run_loop_fifo)
  moreover have "calls (initial_state deg w) = []" by (simp add: initial_state_def)
  ultimately have "fifo [] (filter (\<lambda>k. deps_of steps k = []) (map fst steps))
           (started (schedule exec steps w))"
    using b initial_queue[OF d k m, of w] by (simp add: schedule_def)
  with run_loop_fifo[of st exec steps adj_list] show ?thesis by simp
qed

text \<open>
  The graph of the specification, listed in the order 1, 2, 3: step 1 starts first, and
  steps 2 and 3, made ready by step 1, start in that order.
\<close>

theorem ready_queue_fifo_witness:
  "distinct (map fst (graph [(1, []), (2, [1]), (3, [1])]))
   \<and> no_dangling (graph [(1, []), (2, [1]), (3, [1])])
   \<and> filter (\<lambda>k. deps_of (graph [(1, []), (2, [1]), (3, [1])]) k = [])
        (map fst (graph [(1, []), (2, [1]), (3, [1])])) = [1]
   \<and> fifo [] [1] (started (schedule always_success (graph [(1, []), (2, [1]), (3, [1])]) ()))
   \<and> started (schedule always_success (graph [(1, []), (2, [1]), (3, [1])]) ()) = [1, 2, 3]"
proof -
  let ?g = "graph [(1, []), (2, [1]), (3, [1])]"
  have r: "started (schedule always_success ?g ()) = [1, 2, 3]"
    by (simp add: run_eval)
  have d: "distinct (map fst ?g)"
    by (simp add: graph_def)
  have n: "no_dangling ?g"
    by (simp add: no_dangling_def deps_of_def graph_def)
  have f: "filter (\<lambda>k. deps_of ?g k = []) (map fst ?g) = [1]"
    by (simp add: deps_of_def graph_def)
  from ready_queue_fifo[OF d n, of always_success "()"] f
  have "fifo [] [1] (started (schedule always_success ?g ()))"
    by simp
  with d n f r show ?thesis
    by simp
qed

text \<open>
  Against C4 as the specification words it. With the dictionary listed in the order 1, 3,
  2, steps 3 and 2 become ready together and step 3 starts first. With the dictionary
  listed in ascending order 1, 2, 3, 4, where 2 depends on 3 and 4 on 1, steps 4 and 2
  are both ready after step 3, and step 4 starts first.
\<close>

theorem ready_queue_fifo_counterexample:
  "started (schedule always_success (graph [(1, []), (3, [1]), (2, [1])]) ()) = [1, 3, 2]
   \<and> started (schedule always_success (graph [(1, []), (2, [3]), (3, []), (4, [1])]) ())
     = [1, 3, 4, 2]"
  by (simp add: run_eval)

section \<open>Properties of the attempt loop\<close>

lemma initial_attempt_invalid:
  assumes fp: "\<And>s fs. format_prompt e s (py ''code_generation_step1'') n task {} fs \<noteq> None"
    and gen: "\<And>s p. \<exists>r. generate_response e s p = Some r
                \<and> \<not> fst (validate_initial_code_response r)"
  shows "\<exists>p r. \<not> fst (validate_initial_code_response r)
           \<and> initial_attempt e n task k fbs s =
               (Continue (json_format_error @ snd (validate_initial_code_response r)),
                s\<lparr>events := events s
                   @ [Generated n k (feedback_section history_header_initial fbs) p (Some r)]\<rparr>)"
proof -
  obtain p where p: "format_prompt e s (py ''code_generation_step1'') n task {}
                       (feedback_section history_header_initial fbs) = Some p"
    using fp[of s "feedback_section history_header_initial fbs"] by auto
  obtain r where r: "generate_response e s p = Some r"
      and v: "\<not> fst (validate_initial_code_response r)"
    using gen[of s p] by auto
  have "initial_attempt e n task k fbs s =
          (Continue (json_format_error @ snd (validate_initial_code_response r)),
           s\<lparr>events := events s
              @ [Generated n k (feedback_section history_header_initial fbs) p (Some r)]\<rparr>)"
  proof -
    obtain m where vr: "validate_initial_code_response r = (False, m)"
      using v by (cases "validate_initial_code_response r") auto
    show ?thesis by (simp add: initial_attempt_def p r vr Let_def)
  qed
  with v show ?thesis by blast
qed

lemma initial_loop_invalid:
  assumes fp: "\<And>s fs. format_prompt e s (py ''code_generation_step1'') n task {} fs \<noteq> None"
    and gen: "\<And>s p. \<exists>r. generate_response e s p = Some r
                \<and> \<not> fst (validate_initial_code_response r)"
  shows "\<exists>new. initial_generation_loop e n task a fbs s
                 = (Result (py ''aborted'') None, s\<lparr>events := events s @ new\<rparr>)
           \<and> length new = nat (max_attempts e) - a
           \<and> (\<forall>k<length new. \<exists>p r.
                 new ! k = Generated n (a + k + 1)
                             (feedback_section history_header_initial
                                (fbs @ map shape_feedback (take k new))) p (Some r)
                 \<and> \<not> fst (validate_initial_code_response r))"
proof (induction "nat (max_attempts e) - a" arbitrary: a fbs s)
  case 0
  then have "\<not> int a < max_attempts e" by linarith
  then have "initial_generation_loop e n task a fbs s = (Result (py ''aborted'') None, s)"
    by (simp add: initial_generation_loop.simps)
  with 0 show ?case by (intro exI[of _ "[]"]) simp
next
  case (Suc m)
  then have lt: "int a < max_attempts e" by linarith
  from initial_attempt_invalid[OF fp gen, of "a + 1" fbs s]
  obtain p r where v: "\<not> fst (validate_initial_code_response r)"
    and att: "initial_attempt e n task (a + 1) fbs s =
               (Continue (json_format_error @ snd (validate_initial_code_response r)),
                s\<lparr>events := events s
                   @ [Generated n (a + 1) (feedback_section history_header_initial fbs) p
                        (Some r)]\<rparr>)"
    by blast
  define ev where "ev = Generated n (a + 1) (feedback_section history_header_initial fbs) p (Some r)"
  define fb where "fb = json_format_error @ snd (validate_initial_code_response r)"
  define s1 where "s1 = s\<lparr>events := events s @ [ev]\<rparr>"
  have sf: "shape_feedback ev = fb" by (simp add: shape_feedback_def ev_def fb_def)
  from Suc(2) have m: "m = nat (max_attempts e) - (a + 1)" by linarith
  from Suc(1)[OF m, of "fbs @ [fb]" s1]
  obtain new where
    run: "initial_generation_loop e n task (a + 1) (fbs @ [fb]) s1
            = (Result (py ''aborted'') None, s1\<lparr>events := events s1 @ new\<rparr>)"
    and len: "length new = nat (max_attempts e) - (a + 1)"
    and each: "\<forall>k<length new. \<exists>p r.
                 new ! k = Generated n (a + 1 + k + 1)
                             (feedback_section history_header_initial
                                ((fbs @ [fb]) @ map shape_feedback (take k new))) p (Some r)
                 \<and> \<not> fst (validate_initial_code_response r)"
    by blast
  have loop: "initial_generation_loop e n task a fbs s
                = (Result (py ''aborted'') None, s\<lparr>events := events s @ (ev # new)\<rparr>)"
    using lt att run
    by (subst initial_generation_loop.simps) (simp add: ev_def fb_def s1_def)
  have l: "length (ev # new) = nat (max_attempts e) - a" using len lt by simp
  have "\<exists>p r. (ev # new) ! k = Generated n (a + k + 1)
                             (feedback_section history_header_initial
                                (fbs @ map shape_feedback (take k (ev # new)))) p (Some r)
                 \<and> \<not> fst (validate_initial_code_response r)"
    if k: "k < length (ev # new)" for k
  proof (cases k)
    case 0
    then show ?thesis using v by (simp add: ev_def)
  next
    case (Suc j)
    with k have "j < length new" by simp
    with each obtain p' r' where
      "new ! j = Generated n (a + 1 + j + 1)
                   (feedback_section history_header_initial
                      ((fbs @ [fb]) @ map shape_feedback (take j new))) p' (Some r')"
      "\<not> fst (validate_initial_code_response r')" by blast
    then show ?thesis using Suc sf by simp
  qed
  with loop l show ?case by blast
qed

text \<open>
  C2. With the attempt cap \<open>N\<close> (\<^verbatim>\<open>max_attempts\<close>), a step whose generator output fails the
  shape validation on every attempt calls the generator exactly \<open>N\<close> times, for the
  attempts \<open>1, \<dots>, N\<close>. The feedback section of the first prompt is empty; for every
  later attempt it is the header followed by the feedback messages of all the earlier
  attempts, verbatim and in their order, separated by the delimiter. No tree is built:
  the workspace changes in its log only, and the log gains nothing but the calls of the
  generator. The step ends with \<^verbatim>\<open>('aborted', None)\<close>. The environment is one in which the
  project definition is there, the prompt can be formatted and the generator answers.
\<close>

theorem invalid_responses_exhaust_attempts:
  assumes "project_definition e = Some project_def" and "truthy project_def"
    and "\<And>s fs. format_prompt e s (py ''code_generation_step1'') n step_task {} fs \<noteq> None"
    and "\<And>s p. \<exists>r. generate_response e s p = Some r
            \<and> \<not> fst (validate_initial_code_response r)"
  shows "\<exists>new. execute_initial_generation_step e n step_task s
                 = (Result (py ''aborted'') None, s\<lparr>events := events s @ new\<rparr>)
           \<and> length new = nat (max_attempts e)
           \<and> (\<forall>k<length new. \<exists>p r.
                 new ! k = Generated n (k + 1)
                             (if k = 0 then []
                              else history_header_initial
                                   @ join history_delimiter (map shape_feedback (take k new)))
                             p (Some r)
                 \<and> \<not> fst (validate_initial_code_response r))"
proof -
  from initial_loop_invalid[of e n step_task 0 "[]" s, OF assms(3,4)]
  obtain new where
    run: "initial_generation_loop e n step_task 0 [] s
            = (Result (py ''aborted'') None, s\<lparr>events := events s @ new\<rparr>)"
    and len: "length new = nat (max_attempts e)"
    and each: "\<forall>k<length new. \<exists>p r.
                 new ! k = Generated n (0 + k + 1)
                             (feedback_section history_header_initial
                                ([] @ map shape_feedback (take k new))) p (Some r)
                 \<and> \<not> fst (validate_initial_code_response r)"
    by auto
  have ex: "execute_initial_generation_step e n step_task s
              = (Result (py ''aborted'') None, s\<lparr>events := events s @ new\<rparr>)"
    using assms(1,2) run by (simp add: execute_initial_generation_step_def)
  have "\<exists>p r. new ! k = Generated n (k + 1)
                             (if k = 0 then []
                              else history_header_initial
                                   @ join history_delimiter (map shape_feedback (take k new)))
                             p (Some r)
                 \<and> \<not> fst (validate_initial_code_response r)"
    if k: "k < length new" for k
  proof -
    from each k obtain p r where
      e: "new ! k = Generated n (0 + k + 1)
                             (feedback_section history_header_initial
                                ([] @ map shape_feedback (take k new))) p (Some r)"
      and v: "\<not> fst (validate_initial_code_response r)" by blast
    have "feedback_section history_header_initial ([] @ map shape_feedback (take k new))
            = (if k = 0 then []
               else history_header_initial
                    @ join history_delimiter (map shape_feedback (take k new)))"
      using k by (auto simp add: feedback_section_def)
    with e v show ?thesis by auto
  qed
  with ex len show ?thesis by blast
qed

theorem invalid_responses_exhaust_attempts_witness:
  "project_definition rejected_responses = Some (JObj [(py ''name'', JStr (py ''demo''))])
   \<and> truthy (JObj [(py ''name'', JStr (py ''demo''))])
   \<and> (\<forall>s fs. format_prompt rejected_responses s (py ''code_generation_step1'') 1
                first_task {} fs \<noteq> None)
   \<and> (\<forall>s p. \<exists>r. generate_response rejected_responses s p = Some r
               \<and> \<not> fst (validate_initial_code_response r))
   \<and> max_attempts rejected_responses = 3
   \<and> (\<exists>new. execute_initial_generation_step rejected_responses 1 first_task new_workspace
                 = (Result (py ''aborted'') None,
                    new_workspace\<lparr>events := events new_workspace @ new\<rparr>)
           \<and> length new = 3
           \<and> (\<forall>k<length new. \<exists>p r.
                 new ! k = Generated 1 (k + 1)
                             (if k = 0 then []
                              else history_header_initial
                                   @ join history_delimiter (map shape_feedback (take k new)))
                             p (Some r)
                 \<and> \<not> fst (validate_initial_code_response r)))
   \<and> execute_initial_generation_step rejected_responses 1 first_task new_workspace
       = (Result (py ''aborted'') None,
          new_workspace\<lparr>events :=
            [Generated 1 1 [] [] (Some (JArr [])),
             Generated 1 2 (history_header_initial @ json_format_error @ msg_not_dict)
               (history_header_initial @ json_format_error @ msg_not_dict) (Some (JObj [])),
             Generated 1 3
               (history_header_initial @ json_format_error @ msg_not_dict
                  @ history_delimiter @ json_format_error @ msg_no_files)
               (history_header_initial @ json_format_error @ msg_not_dict
                  @ history_delimiter @ json_format_error @ msg_no_files)
               (Some (JObj [(py ''files'', JArr [])]))]\<rparr>)"
proof -
  have h1: "project_definition rejected_responses = Some (JObj [(py ''name'', JStr (py ''demo''))])"
    by (simp add: rejected_responses_def)
  have h2: "truthy (JObj [(py ''name'', JStr (py ''demo''))])" by simp
  have h3: "format_prompt rejected_responses s (py ''code_generation_step1'') 1
                first_task {} fs \<noteq> None" for s fs
    by (simp add: rejected_responses_def)
  have h4: "\<exists>r. generate_response rejected_responses s p = Some r
               \<and> \<not> fst (validate_initial_code_response r)" for s p
    by (simp add: rejected_responses_def validate_initial_code_response_def py_def)
  have m: "max_attempts rejected_responses = 3" by (simp add: rejected_responses_def)
  have run: "execute_initial_generation_step rejected_responses 1 first_task new_workspace
       = (Result (py ''aborted'') None,
          new_workspace\<lparr>events :=
            [Generated 1 1 [] [] (Some (JArr [])),
             Generated 1 2 (history_header_initial @ json_format_error @ msg_not_dict)
               (history_header_initial @ json_format_error @ msg_not_dict) (Some (JObj [])),
             Generated 1 3
               (history_header_initial @ json_format_error @ msg_not_dict
                  @ history_delimiter @ json_format_error @ msg_no_files)
               (history_header_initial @ json_format_error @ msg_not_dict
                  @ history_delimiter @ json_format_error @ msg_no_files)
               (Some (JObj [(py ''files'', JArr [])]))]\<rparr>)"
    by (simp add: execute_initial_generation_step_def rejected_responses_def
          initial_generation_loop.simps initial_attempt_def feedback_section_def
          validate_initial_code_response_def new_workspace_def py_def Let_def)
  from invalid_responses_exhaust_attempts[of rejected_responses _ 1 first_task new_workspace,
         OF h1 h2 h3 h4]
  show ?thesis using h1 h2 h3 h4 m run by simp
qed

section \<open>Properties of acceptance\<close>



lemma grows_same: "events s' = events s \<Longrightarrow> successful s' = successful s \<Longrightarrow> grows s s'"
  by (simp add: grows_def)











lemma py_actions [simp]:
  "py ''failure'' \<noteq> py ''success''" "py ''aborted'' \<noteq> py ''success''"
  by (simp_all add: py_def)









































text \<open>
  An entry of \<^verbatim>\<open>files\<close> that is not an object fails the build, and a failed build is the
  feedback of the attempt: the loop goes on with the next attempt.
\<close>

lemma ill_typed_entry_fails_build:
  "build_json_files loads (Some (JArr [JNum 5])) target = Built False Map.empty
   \<and> after_build e n k resp c msg s (Built False t)
     = (Continue msg, (set_attempt_tree s n k t)\<lparr>events := events s @ [BuilderCalled n k False]\<rparr>)"
  by (simp add: build_json_files_def rmtree_def after_build_def Let_def)




end
